theory Spec2Isabelle
  imports Complex_Main "HOL-Library.AList" "HOL-Library.Sublist" "HOL-Library.Multiset"
begin

section \<open>Python values\<close>

text \<open>
  The node pipeline of \<^verbatim>\<open>fetch_proxies.py\<close>: \<^verbatim>\<open>deduplicate_proxies\<close>,
  \<^verbatim>\<open>filter_blocked_regions\<close>, \<^verbatim>\<open>test_single_proxy\<close>, \<^verbatim>\<open>test_proxies_latency\<close>,
  \<^verbatim>\<open>classify_by_region\<close>, \<^verbatim>\<open>build_config\<close> and the part of \<^verbatim>\<open>main\<close> that chains them.

  A Python \<^verbatim>\<open>str\<close> is a sequence of Unicode code points, so it is modelled as a list of
  code points: \<^verbatim>\<open>strip\<close>, the regular expression's \<^verbatim>\<open>.\<close> and case-insensitive matching
  all work on code points. \<open>ustr\<close> turns an ASCII literal into such a string.
\<close>

type_synonym pystr = "nat list"

definition ustr :: "string \<Rightarrow> pystr" where
  "ustr s = map of_char s"

text \<open>The exceptions the pipeline can raise, and \<^verbatim>\<open>sys.exit(code)\<close>.\<close>

datatype py_error = KeyError | TypeError | ValueError | OverflowError | SystemExit int

text \<open>
  The values of a decoded YAML document that are modelled: \<^verbatim>\<open>None\<close>, booleans, integers,
  floats, strings, lists and dictionaries (dates, byte strings and sets are left out). A
  float is a number, an infinity (\<open>FInf True\<close> is \<^verbatim>\<open>+inf\<close>) or NaN; the pipeline only tests a
  float for zero and converts it with \<^verbatim>\<open>int\<close>, so a finite float is kept as the real number
  it denotes. Dictionaries keep their insertion order (an association list, first binding
  of a key); only string keys are modelled, every key the code looks up being a string.
\<close>

datatype pyfloat = FNaN | FInf bool | FFin real

datatype pyval =
    VNone
  | VBool bool
  | VInt int
  | VFloat pyfloat
  | VStr pystr
  | VList "pyval list"
  | VDict "(pystr \<times> pyval) list"

type_synonym pydict = "(pystr \<times> pyval) list"

text \<open>
  Two built-ins are taken as given rather than re-implemented: the text \<^verbatim>\<open>str\<close> gives a
  float, a list or a dictionary (\<open>repr_of\<close>), and the integer \<^verbatim>\<open>int\<close> reads from a
  string, \<open>None\<close> where it raises \<^verbatim>\<open>ValueError\<close> (\<open>parse_int\<close>).
\<close>

record builtins =
  repr_of :: "pyval \<Rightarrow> pystr"
  parse_int :: "pystr \<Rightarrow> int option"

text \<open>Truth value of an object (\<^verbatim>\<open>not x\<close> is its negation).\<close>

fun truthy :: "pyval \<Rightarrow> bool" where
  "truthy VNone = False"
| "truthy (VBool b) = b"
| "truthy (VInt i) = (i \<noteq> 0)"
| "truthy (VFloat f) = (f \<noteq> FFin 0)"
| "truthy (VStr s) = (s \<noteq> [])"
| "truthy (VList xs) = (xs \<noteq> [])"
| "truthy (VDict d) = (d \<noteq> [])"

text \<open>
  Decimal digits of a natural number and \<^verbatim>\<open>str\<close> of an integer. (The interpreter refuses
  to convert an integer of more than 4300 digits; this limit is left out.)
\<close>

fun str_nat :: "nat \<Rightarrow> pystr" where
  "str_nat n = (if n < 10 then [48 + n] else str_nat (n div 10) @ [48 + n mod 10])"

declare str_nat.simps [simp del]

definition str_int :: "int \<Rightarrow> pystr" where
  "str_int i = (if i < 0 then 45 # str_nat (nat (- i)) else str_nat (nat i))"

text \<open>\<^verbatim>\<open>str(x)\<close>, which is also what an f-string field \<^verbatim>\<open>{x}\<close> inserts.\<close>

fun py_str :: "builtins \<Rightarrow> pyval \<Rightarrow> pystr" where
  "py_str py (VStr s) = s"
| "py_str py (VInt i) = str_int i"
| "py_str py (VBool b) = (if b then ustr ''True'' else ustr ''False'')"
| "py_str py VNone = ustr ''None''"
| "py_str py v = repr_of py v"

text \<open>
  \<^verbatim>\<open>int(x)\<close>: a float is truncated towards zero, NaN raises \<^verbatim>\<open>ValueError\<close> and an infinity
  raises \<^verbatim>\<open>OverflowError\<close>; \<^verbatim>\<open>None\<close>, lists and dictionaries raise \<^verbatim>\<open>TypeError\<close>.
\<close>

fun py_int :: "builtins \<Rightarrow> pyval \<Rightarrow> py_error + int" where
  "py_int py VNone = Inl TypeError"
| "py_int py (VBool b) = Inr (if b then 1 else 0)"
| "py_int py (VInt i) = Inr i"
| "py_int py (VFloat FNaN) = Inl ValueError"
| "py_int py (VFloat (FInf s)) = Inl OverflowError"
| "py_int py (VFloat (FFin q)) = Inr (if 0 \<le> q then \<lfloor>q\<rfloor> else \<lceil>q\<rceil>)"
| "py_int py (VStr s) = (case parse_int py s of None \<Rightarrow> Inl ValueError | Some i \<Rightarrow> Inr i)"
| "py_int py (VList xs) = Inl TypeError"
| "py_int py (VDict d) = Inl TypeError"

text \<open>
  \<^verbatim>\<open>str.strip()\<close> removes the leading and trailing white space, the code points for which
  \<^verbatim>\<open>str.isspace\<close> holds.
\<close>

definition is_space :: "nat \<Rightarrow> bool" where
  "is_space c \<longleftrightarrow>
     (9 \<le> c \<and> c \<le> 13) \<or> (28 \<le> c \<and> c \<le> 32) \<or> c = 133 \<or> c = 160 \<or> c = 5760 \<or>
     (8192 \<le> c \<and> c \<le> 8202) \<or> c = 8232 \<or> c = 8233 \<or> c = 8239 \<or> c = 8287 \<or> c = 12288"

definition py_strip :: "pystr \<Rightarrow> pystr" where
  "py_strip s = rev (dropWhile is_space (rev (dropWhile is_space s)))"

section \<open>Regular expressions\<close>

text \<open>
  The patterns of the source are alternations of literal texts in which \<^verbatim>\<open>.?\<close> may occur,
  compiled with \<^verbatim>\<open>re.I\<close> and used with \<^verbatim>\<open>search\<close> only. A pattern is the list of its
  alternatives, an alternative a list of items: a literal code point or \<^verbatim>\<open>.?\<close>.
\<close>

datatype re_item = Lit nat | OptAny

type_synonym regex = "re_item list list"

text \<open>
  Case-insensitive comparison of a pattern character with a character of the text. The
  literals of the source are ASCII letters and caseless characters (digits are absent;
  CJK ideographs and regional indicator symbols have no case). Under \<^verbatim>\<open>re.I\<close> an ASCII
  letter matches its two cases and, as the documentation of \<^verbatim>\<open>re.IGNORECASE\<close> says, four
  more letters: U+0130 and U+0131 match \<^verbatim>\<open>i\<close>, U+017F matches \<^verbatim>\<open>s\<close>, U+212A matches \<^verbatim>\<open>k\<close>.
\<close>

definition fold_case :: "nat \<Rightarrow> nat" where
  "fold_case c =
     (if 65 \<le> c \<and> c \<le> 90 then c + 32
      else if c = 304 \<or> c = 305 then 105
      else if c = 383 then 115
      else if c = 8490 then 107
      else c)"

definition ci_eq :: "nat \<Rightarrow> nat \<Rightarrow> bool" where
  "ci_eq p c \<longleftrightarrow> fold_case p = fold_case c"

text \<open>
  Does an alternative match a prefix of the text? \<^verbatim>\<open>.\<close> matches any character but the
  newline (code point 10), and \<^verbatim>\<open>.?\<close> may also match nothing.
\<close>

fun re_match_here :: "re_item list \<Rightarrow> pystr \<Rightarrow> bool" where
  "re_match_here [] s = True"
| "re_match_here (Lit p # items) [] = False"
| "re_match_here (Lit p # items) (c # s) = (ci_eq p c \<and> re_match_here items s)"
| "re_match_here (OptAny # items) [] = re_match_here items []"
| "re_match_here (OptAny # items) (c # s) =
     (if c = 10 then re_match_here items (c # s)
      else re_match_here items s \<or> re_match_here items (c # s))"

definition re_match_at :: "regex \<Rightarrow> pystr \<Rightarrow> bool" where
  "re_match_at pat s = list_ex (\<lambda>alt. re_match_here alt s) pat"

text \<open>\<^verbatim>\<open>pattern.search(s)\<close> finds a match: at some position some alternative matches.\<close>

fun re_search :: "regex \<Rightarrow> pystr \<Rightarrow> bool" where
  "re_search pat [] = re_match_at pat []"
| "re_search pat (c # s) = (re_match_at pat (c # s) \<or> re_search pat s)"

definition lit :: "string \<Rightarrow> re_item list" where
  "lit s = map (\<lambda>c. Lit (of_char c)) s"

definition cps :: "nat list \<Rightarrow> re_item list" where
  "cps s = map Lit s"

section \<open>The constants of the source\<close>

definition k_name :: pystr where "k_name = ustr ''name''"
definition k_type :: pystr where "k_type = ustr ''type''"
definition k_server :: pystr where "k_server = ustr ''server''"
definition k_port :: pystr where "k_port = ustr ''port''"

text \<open>\<^verbatim>\<open>BLOCKED_REGION_PATTERN\<close>; the non-ASCII literals are given by their code points.\<close>

definition BLOCKED_REGION_PATTERN :: regex where
  "BLOCKED_REGION_PATTERN =
     [cps [127464, 127475], cps [127469, 127472], cps [127481, 127484], cps [127483, 127475],
      lit ''CN'', lit ''HK'', lit ''TW'', lit ''VN'', cps [20013, 22269], cps [39321, 28207],
      cps [21488, 28286], cps [36234, 21335], lit ''China'',
      lit ''Hong'' @ [OptAny] @ lit ''Kong'', lit ''Taiwan'', lit ''Vietnam'',
      cps [22238, 22269]]"

text \<open>The twelve region labels of \<^verbatim>\<open>REGION_MAP\<close>: a flag, a space and the Chinese name.\<close>

definition L_JAPAN :: pystr where "L_JAPAN = [127471, 127477, 32, 26085, 26412]"
definition L_USA :: pystr where "L_USA = [127482, 127480, 32, 32654, 22269]"
definition L_SINGAPORE :: pystr where "L_SINGAPORE = [127480, 127468, 32, 26032, 21152, 22369]"
definition L_KOREA :: pystr where "L_KOREA = [127472, 127479, 32, 38889, 22269]"
definition L_UK :: pystr where "L_UK = [127468, 127463, 32, 33521, 22269]"
definition L_GERMANY :: pystr where "L_GERMANY = [127465, 127466, 32, 24503, 22269]"
definition L_FRANCE :: pystr where "L_FRANCE = [127467, 127479, 32, 27861, 22269]"
definition L_RUSSIA :: pystr where "L_RUSSIA = [127479, 127482, 32, 20420, 32599, 26031]"
definition L_CANADA :: pystr where "L_CANADA = [127464, 127462, 32, 21152, 25343, 22823]"
definition L_AUSTRALIA :: pystr where
  "L_AUSTRALIA = [127462, 127482, 32, 28595, 22823, 21033, 20122]"
definition L_INDIA :: pystr where "L_INDIA = [127470, 127475, 32, 21360, 24230]"
definition L_BRAZIL :: pystr where "L_BRAZIL = [127463, 127479, 32, 24052, 35199]"

type_synonym catalog = "(regex \<times> pystr) list"

definition REGION_MAP :: catalog where
  "REGION_MAP =
    [([cps [127471, 127477], lit ''JP'', cps [26085, 26412], lit ''Japan'', cps [19996, 20140],
       cps [22823, 38442]], L_JAPAN),
     ([cps [127482, 127480], lit ''US'', cps [32654, 22269],
       lit ''United'' @ [OptAny] @ lit ''States'', cps [27931, 26441, 30710],
       cps [30789, 35895], cps [32445, 32422], cps [36798, 25289, 26031],
       cps [20964, 20976, 22478], cps [35199, 38597, 22270]], L_USA),
     ([cps [127480, 127468], lit ''SG'', cps [26032, 21152, 22369], lit ''Singapore'',
       cps [29422, 22478]], L_SINGAPORE),
     ([cps [127472, 127479], lit ''KR'', cps [38889, 22269], lit ''Korea'',
       cps [39318, 23572]], L_KOREA),
     ([cps [127468, 127463], lit ''UK'', lit ''GB'', cps [33521, 22269],
       lit ''United'' @ [OptAny] @ lit ''Kingdom'', cps [20262, 25958]], L_UK),
     ([cps [127465, 127466], lit ''DE'', cps [24503, 22269], lit ''Germany'',
       cps [27861, 20848, 20811, 31119]], L_GERMANY),
     ([cps [127467, 127479], lit ''FR'', cps [27861, 22269], lit ''France'',
       cps [24052, 40654]], L_FRANCE),
     ([cps [127479, 127482], lit ''RU'', cps [20420, 32599, 26031], lit ''Russia'',
       cps [33707, 26031, 31185]], L_RUSSIA),
     ([cps [127464, 127462], lit ''CA'', cps [21152, 25343, 22823], lit ''Canada''], L_CANADA),
     ([cps [127462, 127482], lit ''AU'', cps [28595, 22823, 21033, 20122], lit ''Australia'',
       cps [24713, 23612]], L_AUSTRALIA),
     ([cps [127470, 127475], lit ''IN'', cps [21360, 24230], lit ''India'',
       cps [23391, 20080]], L_INDIA),
     ([cps [127463, 127479], lit ''BR'', cps [24052, 35199], lit ''Brazil''], L_BRAZIL)]"

definition ALL_REGION_NAMES :: "pystr list" where
  "ALL_REGION_NAMES = map snd REGION_MAP"

section \<open>Node Normalizer: deduplicate_proxies\<close>

text \<open>
  The entries of a Python list refer to objects, and \<^verbatim>\<open>proxy["name"] = name\<close> changes the
  object: the new name shows through every entry that refers to it. A list is therefore
  given by the objects \<open>objs\<close> and by \<open>refs\<close>, which holds for every entry of the list the
  position in \<open>objs\<close> of the object listed there (a position below \<open>length objs\<close>); an
  object that is listed twice, as a YAML alias produces it, has its position twice in
  \<open>refs\<close>.

  The loop of \<^verbatim>\<open>deduplicate_proxies\<close>, with \<open>seen\<close> the dictionary \<^verbatim>\<open>seen_names\<close>. An entry
  that is not a dictionary, lacks \<^verbatim>\<open>name\<close>, \<^verbatim>\<open>type\<close> or \<^verbatim>\<open>server\<close>, or whose trimmed name is
  empty is skipped. A name already in \<open>seen\<close> has its counter incremented and gets the
  suffix \<^verbatim>\<open>_<counter>\<close>; a new name is entered with counter 0. The name is overwritten in
  the object and the entry is appended to \<^verbatim>\<open>result\<close>. The function returns the objects as
  the loop leaves them and the list \<^verbatim>\<open>result\<close>.
\<close>

fun dedup_loop_objs ::
  "builtins \<Rightarrow> (pystr \<times> int) list \<Rightarrow> pyval list \<Rightarrow> nat list \<Rightarrow> pyval list \<times> nat list" where
  "dedup_loop_objs py seen objs [] = (objs, [])"
| "dedup_loop_objs py seen objs (r # rest) =
     (case objs ! r of
        VDict proxy \<Rightarrow>
          (case map_of proxy k_name of
             None \<Rightarrow> dedup_loop_objs py seen objs rest
           | Some nm \<Rightarrow>
               if map_of proxy k_type = None \<or> map_of proxy k_server = None
               then dedup_loop_objs py seen objs rest
               else
                 let name = py_strip (py_str py nm) in
                 if name = [] then dedup_loop_objs py seen objs rest
                 else
                   (case map_of seen name of
                      Some n \<Rightarrow>
                        (case dedup_loop_objs py (AList.update name (n + 1) seen)
                                (objs[r := VDict (AList.update k_name
                                    (VStr (name @ ustr ''_'' @ str_int (n + 1))) proxy)]) rest of
                           (objs', result) \<Rightarrow> (objs', r # result))
                    | None \<Rightarrow>
                        (case dedup_loop_objs py (AList.update name 0 seen)
                                (objs[r := VDict (AList.update k_name (VStr name) proxy)]) rest of
                           (objs', result) \<Rightarrow> (objs', r # result))))
      | _ \<Rightarrow> dedup_loop_objs py seen objs rest)"

definition deduplicate_proxies_objs ::
  "builtins \<Rightarrow> pyval list \<Rightarrow> nat list \<Rightarrow> pyval list \<times> nat list" where
  "deduplicate_proxies_objs py objs refs = dedup_loop_objs py [] objs refs"

text \<open>The dictionary that a value is, the empty one for a value that is none.\<close>

definition dict_of :: "pyval \<Rightarrow> pydict" where
  "dict_of v = (case v of VDict d \<Rightarrow> d | _ \<Rightarrow> [])"

text \<open>
  \<^verbatim>\<open>deduplicate_proxies\<close> on a list whose entries are objects of their own, as the parser
  returns them for a document without aliases: entry \<open>i\<close> of the list is object \<open>i\<close>. The
  result is the list of the returned nodes, each as it is when the function returns.
\<close>

definition deduplicate_proxies :: "builtins \<Rightarrow> pyval list \<Rightarrow> pydict list" where
  "deduplicate_proxies py all_proxies =
     (case deduplicate_proxies_objs py all_proxies [0..<length all_proxies] of
        (objs, result) \<Rightarrow> map (\<lambda>r. dict_of (objs ! r)) result)"

text \<open>The \<^verbatim>\<open>name\<close> of every node of a list, \<open>None\<close> where a node has none.\<close>

definition names_of :: "pydict list \<Rightarrow> pyval option list" where
  "names_of proxies = map (\<lambda>p. map_of p k_name) proxies"

section \<open>Region Filter: filter_blocked_regions\<close>

text \<open>\<^verbatim>\<open>d.get(key, default)\<close>.\<close>

definition dict_get :: "pydict \<Rightarrow> pystr \<Rightarrow> pyval \<Rightarrow> pyval" where
  "dict_get d key dflt = (case map_of d key of None \<Rightarrow> dflt | Some v \<Rightarrow> v)"

text \<open>
  The loop of \<^verbatim>\<open>filter_blocked_regions\<close> for a given pattern: the name searched is
  \<^verbatim>\<open>proxy.get("name", "")\<close>, and \<^verbatim>\<open>search\<close> raises \<^verbatim>\<open>TypeError\<close> on a name that is no string.
\<close>

fun filter_blocked :: "regex \<Rightarrow> pydict list \<Rightarrow> py_error + pydict list" where
  "filter_blocked pat [] = Inr []"
| "filter_blocked pat (proxy # rest) =
     (case dict_get proxy k_name (VStr []) of
        VStr name \<Rightarrow>
          (case filter_blocked pat rest of
             Inl e \<Rightarrow> Inl e
           | Inr result \<Rightarrow> if re_search pat name then Inr result else Inr (proxy # result))
      | _ \<Rightarrow> Inl TypeError)"

definition filter_blocked_regions :: "pydict list \<Rightarrow> py_error + pydict list" where
  "filter_blocked_regions proxies = filter_blocked BLOCKED_REGION_PATTERN proxies"

section \<open>Reachability Prober: test_single_proxy and test_proxies_latency\<close>

text \<open>
  What \<^verbatim>\<open>sock.connect((server, port))\<close> does is the network's answer: the connection is
  established after a measured time, \<^verbatim>\<open>(time.monotonic() - start) * 1000\<close> milliseconds; or
  it fails with \<^verbatim>\<open>socket.timeout\<close>, \<^verbatim>\<open>socket.error\<close> or \<^verbatim>\<open>OSError\<close>, which the probe catches;
  or it raises an exception the probe does not catch (\<^verbatim>\<open>TypeError\<close> for a server that is no
  string, \<^verbatim>\<open>OverflowError\<close> for a port outside 0..65535).
\<close>

datatype conn_result = Connected real | Unreachable | Raised py_error

text \<open>
  \<^verbatim>\<open>round(x, 1)\<close>: the nearest multiple of 0.1, an exact tie going to the even one. The
  result is kept as its number of tenths, so the latency 123.6 is 1236.
\<close>

definition round_half_even :: "real \<Rightarrow> int" where
  "round_half_even x =
     (let f = \<lfloor>x\<rfloor>; d = x - of_int f in
      if d < 1 / 2 then f else if 1 / 2 < d then f + 1 else if even f then f else f + 1)"

definition round1 :: "real \<Rightarrow> int" where
  "round1 x = round_half_even (x * 10)"

text \<open>\<^verbatim>\<open>int(latency)\<close> for a latency given in tenths: truncation towards zero.\<close>

definition int_of_tenths :: "int \<Rightarrow> int" where
  "int_of_tenths t = (if 0 \<le> t then t div 10 else - ((- t) div 10))"

text \<open>
  \<^verbatim>\<open>test_single_proxy\<close>, with \<open>connect\<close> the network's answer for an endpoint. The result
  pairs the node with its latency in tenths of a millisecond, \<open>None\<close> for unreachable. The
  probe reads the node and does not change it.
\<close>

definition test_single_proxy ::
  "builtins \<Rightarrow> (pyval \<Rightarrow> int \<Rightarrow> conn_result) \<Rightarrow> pydict \<Rightarrow> py_error + (pydict \<times> int option)" where
  "test_single_proxy py connect proxy =
     (let server = dict_get proxy k_server (VStr []);
          port = dict_get proxy k_port (VInt 0)
      in
        if \<not> truthy server \<or> \<not> truthy port then Inr (proxy, None)
        else
          (case py_int py port of
             Inl e \<Rightarrow> if e = ValueError \<or> e = TypeError then Inr (proxy, None) else Inl e
           | Inr p \<Rightarrow>
               (case connect server p of
                  Connected latency_ms \<Rightarrow> Inr (proxy, Some (round1 latency_ms))
                | Unreachable \<Rightarrow> Inr (proxy, None)
                | Raised e \<Rightarrow> Inl e)))"

text \<open>
  The node list of \<^verbatim>\<open>test_proxies_latency\<close> is given by the objects \<open>objs\<close> and the positions
  \<open>refs\<close>, as above. There is one task per entry of the list: task \<open>i\<close> probes the object
  at entry \<open>i\<close>, and \<open>net i\<close> is the network's answer to it. The probe returns the object it
  was given, which is kept as its position.
\<close>

definition submit_all_objs ::
  "builtins \<Rightarrow> (nat \<Rightarrow> pyval \<Rightarrow> int \<Rightarrow> conn_result) \<Rightarrow> pydict list \<Rightarrow> nat list
     \<Rightarrow> (py_error + (nat \<times> int option)) list" where
  "submit_all_objs py net objs refs =
     map (\<lambda>(i, r). case test_single_proxy py (net i) (objs ! r) of
                      Inl e \<Rightarrow> Inl e
                    | Inr (proxy, latency) \<Rightarrow> Inr (r, latency))
       (enumerate 0 refs)"

text \<open>
  \<^verbatim>\<open>as_completed\<close> yields every task once, in an order that the node list does not
  determine: the tasks that are finished when the iteration starts come first, in the
  iteration order of a set, and the others follow as they finish. \<open>order\<close> lists the task
  indices in the order in which they are yielded, a permutation of \<open>[0..<length futures]\<close>.
\<close>

definition as_completed :: "nat list \<Rightarrow> 'a list \<Rightarrow> 'a list" where
  "as_completed order futures = map (\<lambda>i. futures ! i) order"

definition valid_order :: "nat list \<Rightarrow> nat \<Rightarrow> bool" where
  "valid_order order n \<longleftrightarrow> distinct order \<and> set order = {..<n}"

text \<open>
  The loop over the yielded tasks: \<^verbatim>\<open>future.result()\<close> re-raises what the task raised;
  a node with a latency is appended to \<^verbatim>\<open>alive_proxies\<close>, the others are counted.
\<close>

fun collect_alive ::
  "(py_error + ('a \<times> int option)) list \<Rightarrow> py_error + ('a \<times> int) list" where
  "collect_alive [] = Inr []"
| "collect_alive (Inl e # rest) = Inl e"
| "collect_alive (Inr (proxy, None) # rest) = collect_alive rest"
| "collect_alive (Inr (proxy, Some latency) # rest) =
     (case collect_alive rest of
        Inl e \<Rightarrow> Inl e
      | Inr alive \<Rightarrow> Inr ((proxy, latency) # alive))"

text \<open>\<^verbatim>\<open>alive_proxies\<close> after \<^verbatim>\<open>alive_proxies.sort(key=lambda x: x[1])\<close>, a stable sort.\<close>

definition ranked_alive_objs ::
  "builtins \<Rightarrow> (nat \<Rightarrow> pyval \<Rightarrow> int \<Rightarrow> conn_result) \<Rightarrow> nat list \<Rightarrow> pydict list \<Rightarrow> nat list
     \<Rightarrow> py_error + (nat \<times> int) list" where
  "ranked_alive_objs py net order objs refs =
     (case collect_alive (as_completed order (submit_all_objs py net objs refs)) of
        Inl e \<Rightarrow> Inl e
      | Inr alive_proxies \<Rightarrow> Inr (sort_key snd alive_proxies))"

text \<open>The new name \<^verbatim>\<open>f"[{int(latency)}ms] {proxy['name']}"\<close>.\<close>

definition latency_mark :: "builtins \<Rightarrow> int \<Rightarrow> pyval \<Rightarrow> pystr" where
  "latency_mark py latency nm =
     ustr ''['' @ str_int (int_of_tenths latency) @ ustr ''ms] '' @ py_str py nm"

text \<open>
  The loop that renames the ranked nodes: \<^verbatim>\<open>proxy['name']\<close> is read from the object as it
  is at that moment and raises \<^verbatim>\<open>KeyError\<close> when there is none, the new name is written
  into the object, and the entry is appended to \<^verbatim>\<open>result\<close>. The function returns the
  objects as the loop leaves them and the list \<^verbatim>\<open>result\<close>.
\<close>

fun add_latency_marks_objs ::
  "builtins \<Rightarrow> pydict list \<Rightarrow> (nat \<times> int) list \<Rightarrow> py_error + (pydict list \<times> nat list)" where
  "add_latency_marks_objs py objs [] = Inr (objs, [])"
| "add_latency_marks_objs py objs ((r, latency) # rest) =
     (case map_of (objs ! r) k_name of
        None \<Rightarrow> Inl KeyError
      | Some nm \<Rightarrow>
          (case add_latency_marks_objs py
                  (objs[r := AList.update k_name (VStr (latency_mark py latency nm)) (objs ! r)])
                  rest of
             Inl e \<Rightarrow> Inl e
           | Inr (objs', result) \<Rightarrow> Inr (objs', r # result)))"

definition test_proxies_latency_objs ::
  "builtins \<Rightarrow> (nat \<Rightarrow> pyval \<Rightarrow> int \<Rightarrow> conn_result) \<Rightarrow> nat list \<Rightarrow> pydict list \<Rightarrow> nat list
     \<Rightarrow> py_error + (pydict list \<times> nat list)" where
  "test_proxies_latency_objs py net order objs refs =
     (case ranked_alive_objs py net order objs refs of
        Inl e \<Rightarrow> Inl e
      | Inr alive_proxies \<Rightarrow> add_latency_marks_objs py objs alive_proxies)"

text \<open>
  \<^verbatim>\<open>test_proxies_latency\<close> on a list whose entries are objects of their own: entry \<open>i\<close> of
  the list is object \<open>i\<close>. The result is the list of the returned nodes, each as it is
  when the function returns.
\<close>

definition test_proxies_latency ::
  "builtins \<Rightarrow> (nat \<Rightarrow> pyval \<Rightarrow> int \<Rightarrow> conn_result) \<Rightarrow> nat list \<Rightarrow> pydict list
     \<Rightarrow> py_error + pydict list" where
  "test_proxies_latency py net order proxies =
     (case test_proxies_latency_objs py net order proxies [0..<length proxies] of
        Inl e \<Rightarrow> Inl e
      | Inr (objs, result) \<Rightarrow> Inr (map (\<lambda>r. objs ! r) result))"

section \<open>Region Classifier: classify_by_region\<close>

text \<open>
  The inner loop over the catalog: the label of the first pattern that matches the name,
  \<open>None\<close> when the loop ends without a match. \<^verbatim>\<open>pattern.search(name)\<close> raises \<^verbatim>\<open>TypeError\<close>
  on a name that is no string.
\<close>

fun match_region :: "catalog \<Rightarrow> pyval \<Rightarrow> py_error + pystr option" where
  "match_region [] nm = Inr None"
| "match_region ((pattern, region_name) # rest) nm =
     (case nm of
        VStr name \<Rightarrow>
          if re_search pattern name then Inr (Some region_name) else match_region rest nm
      | _ \<Rightarrow> Inl TypeError)"

type_synonym region_groups = "(pystr \<times> pyval list) list"

text \<open>
  \<^verbatim>\<open>region_groups.setdefault(region_name, []).append(name)\<close> on an \<^verbatim>\<open>OrderedDict\<close>: a new
  label is entered after the labels already there, a known label keeps its place.
\<close>

definition setdefault_append :: "region_groups \<Rightarrow> pystr \<Rightarrow> pyval \<Rightarrow> region_groups" where
  "setdefault_append groups region_name nm =
     (case map_of groups region_name of
        None \<Rightarrow> groups @ [(region_name, [nm])]
      | Some members \<Rightarrow> AList.update region_name (members @ [nm]) groups)"

fun classify_loop :: "catalog \<Rightarrow> region_groups \<Rightarrow> pydict list \<Rightarrow> py_error + region_groups" where
  "classify_loop cat groups [] = Inr groups"
| "classify_loop cat groups (proxy # rest) =
     (case map_of proxy k_name of
        None \<Rightarrow> Inl KeyError
      | Some nm \<Rightarrow>
          (case match_region cat nm of
             Inl e \<Rightarrow> Inl e
           | Inr None \<Rightarrow> classify_loop cat groups rest
           | Inr (Some region_name) \<Rightarrow>
               classify_loop cat (setdefault_append groups region_name nm) rest))"

definition classify :: "catalog \<Rightarrow> pydict list \<Rightarrow> py_error + region_groups" where
  "classify cat proxies = classify_loop cat [] proxies"

definition classify_by_region :: "pydict list \<Rightarrow> py_error + region_groups" where
  "classify_by_region proxies = classify REGION_MAP proxies"

section \<open>Routing Config Assembler: build_config\<close>

record proxy_group =
  g_name :: pystr
  g_type :: pystr
  g_url :: "pystr option"
  g_interval :: "int option"
  g_tolerance :: "int option"
  g_proxies :: "pyval list"

definition select_group :: "pystr \<Rightarrow> pyval list \<Rightarrow> proxy_group" where
  "select_group nm members =
     \<lparr>g_name = nm, g_type = ustr ''select'', g_url = None, g_interval = None,
      g_tolerance = None, g_proxies = members\<rparr>"

text \<open>The names of the ten groups that come before the region groups.\<close>

definition G_PROXY :: pystr where "G_PROXY = [128640, 32, 36873, 25321, 20195, 29702]"
definition G_AUTO :: pystr where "G_AUTO = [9851, 32, 33258, 21160, 36873, 25321]"
definition G_FASTEST :: pystr where "G_FASTEST = [128304, 32, 24310, 36831, 26368, 20302]"
definition G_MANUAL :: pystr where "G_MANUAL = [9989, 32, 25163, 21160, 36873, 25321]"
definition G_UNLOCK :: pystr where "G_UNLOCK = [127760, 32, 31361, 30772, 38145, 21306]"
definition G_DOMESTIC :: pystr where "G_DOMESTIC = [10067, 32, 30097, 20284, 22269, 20869]"
definition G_FINAL :: pystr where "G_FINAL = [128031, 32, 28431, 32593, 20043, 40060]"
definition G_MALWARE :: pystr where "G_MALWARE = [128680, 32, 30149, 27602, 32593, 31449]"
definition G_ADBLOCK :: pystr where "G_ADBLOCK = [9940, 32, 24191, 21578, 25318, 25130]"
definition G_REGION :: pystr where
  "G_REGION = [128506, 65039, 32, 36873, 25321, 22320, 21306]"

definition REJECT :: pyval where "REJECT = VStr (ustr ''REJECT'')"
definition DIRECT :: pyval where "DIRECT = VStr (ustr ''DIRECT'')"
definition GOOGLE_URL :: pystr where "GOOGLE_URL = ustr ''https://www.google.com/''"

text \<open>\<^verbatim>\<open>all_names = [p["name"] for p in proxies]\<close>.\<close>

fun all_names :: "pydict list \<Rightarrow> py_error + pyval list" where
  "all_names [] = Inr []"
| "all_names (p # rest) =
     (case map_of p k_name of
        None \<Rightarrow> Inl KeyError
      | Some nm \<Rightarrow> (case all_names rest of Inl e \<Rightarrow> Inl e | Inr names \<Rightarrow> Inr (nm # names)))"

text \<open>Groups 1 to 9 of \<^verbatim>\<open>build_config\<close>.\<close>

definition fixed_groups :: "pyval list \<Rightarrow> proxy_group list" where
  "fixed_groups names =
     [select_group G_PROXY [VStr G_AUTO, VStr G_FASTEST, VStr G_MANUAL, VStr G_REGION],
      \<lparr>g_name = G_AUTO, g_type = ustr ''fallback'', g_url = Some GOOGLE_URL,
       g_interval = Some 300, g_tolerance = None, g_proxies = names\<rparr>,
      \<lparr>g_name = G_FASTEST, g_type = ustr ''url-test'', g_url = Some GOOGLE_URL,
       g_interval = Some 300, g_tolerance = Some 20, g_proxies = names\<rparr>,
      select_group G_MANUAL names,
      select_group G_UNLOCK [DIRECT, VStr G_PROXY],
      select_group G_DOMESTIC [DIRECT, VStr G_PROXY, REJECT],
      select_group G_FINAL [DIRECT, VStr G_PROXY],
      select_group G_MALWARE [REJECT, DIRECT],
      select_group G_ADBLOCK [REJECT, DIRECT, VStr G_PROXY]]"

text \<open>Group 10: the labels of the catalog that are keys of \<^verbatim>\<open>region_groups\<close>.\<close>

definition region_select_group :: "pystr list \<Rightarrow> region_groups \<Rightarrow> proxy_group" where
  "region_select_group all_regions groups =
     (let active_region_names = filter (\<lambda>r. map_of groups r \<noteq> None) all_regions in
      select_group G_REGION
        (if active_region_names \<noteq> [] then map VStr active_region_names else [REJECT]))"

text \<open>
  Step 11, the loop over \<^verbatim>\<open>ALL_REGION_NAMES\<close>: one group per label, with the members of
  \<^verbatim>\<open>region_groups[region_name]\<close> or, for a label that is no key, with \<^verbatim>\<open>["REJECT"]\<close>.
\<close>

fun region_subgroups :: "pystr list \<Rightarrow> region_groups \<Rightarrow> proxy_group list" where
  "region_subgroups [] groups = []"
| "region_subgroups (region_name # rest) groups =
     (case map_of groups region_name of
        Some members \<Rightarrow> select_group region_name members # region_subgroups rest groups
      | None \<Rightarrow> select_group region_name [REJECT] # region_subgroups rest groups)"

text \<open>
  The configuration \<^verbatim>\<open>build_config\<close> returns: the node list, the group list and the rule
  list. The rule list of \<^verbatim>\<open>build_rules\<close> is a constant table, taken as the parameter
  \<open>rules\<close>; the constant scalar settings, which depend on no input, and the time stamp are
  left out.
\<close>

record config =
  cfg_proxies :: "pydict list"
  cfg_proxy_groups :: "proxy_group list"
  cfg_rules :: "pystr list"

definition build_config_with ::
  "catalog \<Rightarrow> pystr list \<Rightarrow> pydict list \<Rightarrow> py_error + config" where
  "build_config_with cat rules proxies =
     (case all_names proxies of
        Inl e \<Rightarrow> Inl e
      | Inr names \<Rightarrow>
          (case classify cat proxies of
             Inl e \<Rightarrow> Inl e
           | Inr groups \<Rightarrow>
               Inr \<lparr>cfg_proxies = proxies,
                    cfg_proxy_groups =
                      fixed_groups names @ [region_select_group (map snd cat) groups]
                        @ region_subgroups (map snd cat) groups,
                    cfg_rules = rules\<rparr>))"

definition build_config :: "pystr list \<Rightarrow> pydict list \<Rightarrow> py_error + config" where
  "build_config rules proxies = build_config_with REGION_MAP rules proxies"

section \<open>The driver: main\<close>

text \<open>
  \<^verbatim>\<open>main\<close> from the point where the raw descriptors of all subscriptions are in
  \<^verbatim>\<open>all_proxies\<close>. \<open>Inr config\<close> is the configuration handed to \<^verbatim>\<open>write_output\<close>;
  \<open>Inl (SystemExit 1)\<close> is \<^verbatim>\<open>sys.exit(1)\<close>, any other \<open>Inl\<close> an exception that ends the run.
  In both cases nothing is built or written. The statistics logged after the file is
  written do not change the result. The entries of \<^verbatim>\<open>all_proxies\<close> are taken as objects of
  their own, so that no stage meets a list with an object listed twice.
\<close>

definition main_pipeline ::
  "builtins \<Rightarrow> (nat \<Rightarrow> pyval \<Rightarrow> int \<Rightarrow> conn_result) \<Rightarrow> nat list \<Rightarrow> pystr list \<Rightarrow> pyval list
     \<Rightarrow> py_error + config" where
  "main_pipeline py net order rules all_proxies =
     (if all_proxies = [] then Inl (SystemExit 1)
      else
        (case filter_blocked_regions (deduplicate_proxies py all_proxies) of
           Inl e \<Rightarrow> Inl e
         | Inr filtered \<Rightarrow>
             if filtered = [] then Inl (SystemExit 1)
             else
               (case test_proxies_latency py net order filtered of
                  Inl e \<Rightarrow> Inl e
                | Inr alive \<Rightarrow>
                    if alive = [] then Inl (SystemExit 1)
                    else build_config rules alive)))"

section \<open>Notions the properties are stated with\<close>

text \<open>
  A node whose \<^verbatim>\<open>name\<close> is absent or a string: what \<^verbatim>\<open>filter_blocked_regions\<close> can search.
  The name it searches is \<^verbatim>\<open>proxy.get("name", "")\<close>.
\<close>

definition name_is_text :: "pydict \<Rightarrow> bool" where
  "name_is_text p =
     (case map_of p k_name of None \<Rightarrow> True | Some (VStr s) \<Rightarrow> True | Some _ \<Rightarrow> False)"

definition name_matches :: "regex \<Rightarrow> pydict \<Rightarrow> bool" where
  "name_matches pat p =
     (case dict_get p k_name (VStr []) of VStr s \<Rightarrow> re_search pat s | _ \<Rightarrow> False)"

text \<open>A node whose \<^verbatim>\<open>name\<close> is a string, as every node the Normalizer returns.\<close>

definition has_str_name :: "pydict \<Rightarrow> bool" where
  "has_str_name p = (case map_of p k_name of Some (VStr s) \<Rightarrow> True | _ \<Rightarrow> False)"

text \<open>
  The nodes with a latency among the results of the tasks, in the order of the list
  (for the list \<open>as_completed order futures\<close>: in the order in which the tasks are
  yielded).
\<close>

definition survivors :: "(py_error + ('a \<times> int option)) list \<Rightarrow> ('a \<times> int) list" where
  "survivors rs =
     concat (map (\<lambda>r. case r of Inr (p, Some l) \<Rightarrow> [(p, l)] | _ \<Rightarrow> []) rs)"

text \<open>
  A decimal numeral: a non-empty text of the digits \<^verbatim>\<open>0\<close> to \<^verbatim>\<open>9\<close> (the code points 48 to
  57), and the number it denotes.
\<close>

definition is_digits :: "pystr \<Rightarrow> bool" where
  "is_digits ds \<longleftrightarrow> ds \<noteq> [] \<and> list_all (\<lambda>c. 48 \<le> c \<and> c \<le> 57) ds"

definition digits_value :: "pystr \<Rightarrow> nat" where
  "digits_value ds = foldl (\<lambda>a c. 10 * a + (c - 48)) 0 ds"

text \<open>The members of a label in a classification result, none for a label that is no key.\<close>

definition members :: "region_groups \<Rightarrow> pystr \<Rightarrow> pyval list" where
  "members groups r = (case map_of groups r of None \<Rightarrow> [] | Some ms \<Rightarrow> ms)"

text \<open>
  The (label, name) pairs of the nodes that match some pattern of the catalog, the label
  being the one \<open>match_region\<close> finds, in the order of the node list.
\<close>

definition matched_node :: "catalog \<Rightarrow> pydict \<Rightarrow> (pystr \<times> pyval) list" where
  "matched_node cat p =
     (case map_of p k_name of
        None \<Rightarrow> []
      | Some nm \<Rightarrow> (case match_region cat nm of Inr (Some r) \<Rightarrow> [(r, nm)] | _ \<Rightarrow> []))"

definition matched :: "catalog \<Rightarrow> pydict list \<Rightarrow> (pystr \<times> pyval) list" where
  "matched cat proxies = concat (map (matched_node cat) proxies)"

text \<open>The elements of a list in the order of their first occurrence.\<close>

primrec first_seen :: "'a list \<Rightarrow> 'a list" where
  "first_seen [] = []"
| "first_seen (x # xs) = x # filter (\<lambda>y. y \<noteq> x) (first_seen xs)"

text \<open>The keys of a classification result are listed in the order of the catalog.\<close>

definition in_catalog_order :: "catalog \<Rightarrow> region_groups \<Rightarrow> bool" where
  "in_catalog_order cat groups \<longleftrightarrow>
     map fst groups = filter (\<lambda>r. r \<in> set (map fst groups)) (map snd cat)"

text \<open>
  The name the Normalizer reads from a raw entry: \<^verbatim>\<open>str(proxy["name"]).strip()\<close>, \<open>None\<close> for
  an entry it skips (no dictionary, a required field absent, or an empty trimmed name).
  \<open>norm_node\<close> is the entry with that name written back.
\<close>

definition norm_name :: "builtins \<Rightarrow> pyval \<Rightarrow> pystr option" where
  "norm_name py v =
     (case v of
        VDict d \<Rightarrow>
          (case map_of d k_name of
             None \<Rightarrow> None
           | Some nm \<Rightarrow>
               if map_of d k_type = None \<or> map_of d k_server = None
                  \<or> py_strip (py_str py nm) = []
               then None else Some (py_strip (py_str py nm)))
      | _ \<Rightarrow> None)"

definition norm_node :: "builtins \<Rightarrow> pyval \<Rightarrow> pydict option" where
  "norm_node py v =
     (case v of
        VDict d \<Rightarrow>
          (case norm_name py v of
             None \<Rightarrow> None
           | Some n \<Rightarrow> Some (AList.update k_name (VStr n) d))
      | _ \<Rightarrow> None)"

text \<open>
  Normalizer, then Region Filter; and the grouping the Classifier returns for their
  result.
\<close>

definition normalize_filter :: "builtins \<Rightarrow> pyval list \<Rightarrow> py_error + pydict list" where
  "normalize_filter py raw = filter_blocked_regions (deduplicate_proxies py raw)"

definition grouping :: "builtins \<Rightarrow> pyval list \<Rightarrow> py_error + region_groups" where
  "grouping py raw =
     (case normalize_filter py raw of
        Inl e \<Rightarrow> Inl e
      | Inr nodes \<Rightarrow> classify_by_region nodes)"

text \<open>
  An input that is already deduplicated and already filtered, in the words of the
  specification: every entry is a dictionary with \<^verbatim>\<open>name\<close>, \<^verbatim>\<open>type\<close> and \<^verbatim>\<open>server\<close>; the
  names are non-empty strings and pairwise different; no name matches the blocked
  pattern.
\<close>

definition required_fields_present :: "pyval list \<Rightarrow> bool" where
  "required_fields_present raw \<longleftrightarrow>
     list_all (\<lambda>v. case v of
                      VDict d \<Rightarrow> map_of d k_name \<noteq> None \<and> map_of d k_type \<noteq> None
                                  \<and> map_of d k_server \<noteq> None
                    | _ \<Rightarrow> False) raw"

definition names_unique_nonempty :: "pyval list \<Rightarrow> bool" where
  "names_unique_nonempty raw \<longleftrightarrow>
     list_all (\<lambda>v. case map_of (dict_of v) k_name of
                      Some (VStr s) \<Rightarrow> s \<noteq> []
                    | _ \<Rightarrow> False) raw
     \<and> distinct (map (\<lambda>v. map_of (dict_of v) k_name) raw)"

definition no_name_blocked :: "pyval list \<Rightarrow> bool" where
  "no_name_blocked raw \<longleftrightarrow>
     list_all (\<lambda>v. case map_of (dict_of v) k_name of
                      Some (VStr s) \<Rightarrow> \<not> re_search BLOCKED_REGION_PATTERN s
                    | _ \<Rightarrow> True) raw"

text \<open>
  What the loop of \<^verbatim>\<open>deduplicate_proxies\<close> returns for a list whose entries are objects of
  their own, as a function of the values of the entries (lemma
  \<open>deduplicate_proxies_values\<close>).
\<close>

fun dedup_loop :: "builtins \<Rightarrow> (pystr \<times> int) list \<Rightarrow> pyval list \<Rightarrow> pydict list" where
  "dedup_loop py seen [] = []"
| "dedup_loop py seen (VDict proxy # rest) =
     (case map_of proxy k_name of
        None \<Rightarrow> dedup_loop py seen rest
      | Some nm \<Rightarrow>
          if map_of proxy k_type = None \<or> map_of proxy k_server = None
          then dedup_loop py seen rest
          else
            let name = py_strip (py_str py nm) in
            if name = [] then dedup_loop py seen rest
            else
              (case map_of seen name of
                 Some n \<Rightarrow>
                   AList.update k_name (VStr (name @ ustr ''_'' @ str_int (n + 1))) proxy
                     # dedup_loop py (AList.update name (n + 1) seen) rest
               | None \<Rightarrow>
                   AList.update k_name (VStr name) proxy
                     # dedup_loop py (AList.update name 0 seen) rest))"
| "dedup_loop py seen (v # rest) = dedup_loop py seen rest"

text \<open>The name of a node whose name is a string, the empty string otherwise.\<close>

definition trimmed_name :: "pydict \<Rightarrow> pystr" where
  "trimmed_name d = (case map_of d k_name of Some (VStr n) \<Rightarrow> n | _ \<Rightarrow> [])"

section \<open>Values used in the examples\<close>

text \<open>A concrete choice of the two built-ins for evaluating examples.\<close>

definition py0 :: builtins where
  "py0 = \<lparr>repr_of = (\<lambda>v. ustr ''<object>''), parse_int = (\<lambda>s. None)\<rparr>"

definition mk_node :: "string \<Rightarrow> pydict" where
  "mk_node nm =
     [(k_name, VStr (ustr nm)), (k_type, VStr (ustr ''ss'')),
      (k_server, VStr (ustr ''example.org'')), (k_port, VInt 443)]"

text \<open>\<open>renamed new old\<close>: the node \<open>mk_node old\<close> after its name was set to \<open>new\<close>.\<close>

definition renamed :: "string \<Rightarrow> string \<Rightarrow> pydict" where
  "renamed new old = AList.update k_name (VStr (ustr new)) (mk_node old)"

text \<open>
  Three entries, each an object of its own, with the names \<^verbatim>\<open>' JP'\<close> (with a leading
  blank), \<^verbatim>\<open>'JP'\<close> and \<^verbatim>\<open>'JP_1'\<close>; and the three nodes after a first pass of the Normalizer.
\<close>

definition jp_entries :: "pyval list" where
  "jp_entries = [VDict (mk_node '' JP''), VDict (mk_node ''JP''), VDict (mk_node ''JP_1'')]"

definition jp_first_pass :: "pydict list" where
  "jp_first_pass = [renamed ''JP'' '' JP'', renamed ''JP_1'' ''JP'', mk_node ''JP_1'']"

text \<open>A node whose port is the float \<^verbatim>\<open>inf\<close> (\<^verbatim>\<open>port: .inf\<close> in YAML).\<close>

definition inf_port_node :: pydict where
  "inf_port_node =
     [(k_name, VStr (ustr ''A'')), (k_type, VStr (ustr ''ss'')),
      (k_server, VStr (ustr ''example.org'')), (k_port, VFloat (FInf True))]"

text \<open>
  Networks: every connection is established after \<open>x\<close> milliseconds; the connection of
  task \<open>i\<close> is established after \<open>xs ! i\<close> milliseconds; no connection is established.
\<close>

definition net_const :: "real \<Rightarrow> nat \<Rightarrow> pyval \<Rightarrow> int \<Rightarrow> conn_result" where
  "net_const x i server port = Connected x"

definition net_by_task :: "real list \<Rightarrow> nat \<Rightarrow> pyval \<Rightarrow> int \<Rightarrow> conn_result" where
  "net_by_task xs i server port = (if i < length xs then Connected (xs ! i) else Unreachable)"

definition net_down :: "nat \<Rightarrow> pyval \<Rightarrow> int \<Rightarrow> conn_result" where
  "net_down i server port = Unreachable"

section \<open>Facts about the model\<close>

subsection \<open>Evaluating the examples\<close>

lemmas keys = k_name_def k_type_def k_server_def k_port_def ustr_def

lemmas labels = L_JAPAN_def L_USA_def L_SINGAPORE_def L_KOREA_def L_UK_def L_GERMANY_def
  L_FRANCE_def L_RUSSIA_def L_CANADA_def L_AUSTRALIA_def L_INDIA_def L_BRAZIL_def

lemmas re_eval = re_match_at_def cps_def lit_def ustr_def ci_eq_def fold_case_def

lemma name_mk_node: "map_of (mk_node s) k_name = Some (VStr (ustr s))"
  by (simp add: mk_node_def)

lemma str_mk_node: "has_str_name (mk_node s)"
  by (simp add: has_str_name_def name_mk_node)

subsection \<open>Region Filter\<close>

lemma filter_blocked_text:
  "\<forall>p\<in>set proxies. name_is_text p \<Longrightarrow>
   filter_blocked pat proxies = Inr (filter (\<lambda>p. \<not> name_matches pat p) proxies)"
proof (induction proxies)
  case Nil
  then show ?case by simp
next
  case (Cons p ps)
  then have ih: "filter_blocked pat ps = Inr (filter (\<lambda>p. \<not> name_matches pat p) ps)"
    by simp
  from Cons.prems have "name_is_text p" by simp
  then show ?case
    by (auto simp: ih name_is_text_def name_matches_def dict_get_def
        split: option.splits pyval.splits)
qed

lemma blocked_cn_node: "re_search BLOCKED_REGION_PATTERN (ustr ''CN-node'')"
  by (simp add: BLOCKED_REGION_PATTERN_def re_match_at_def cps_def lit_def ustr_def ci_eq_def fold_case_def)

lemma not_blocked_jp_node: "\<not> re_search BLOCKED_REGION_PATTERN (ustr ''JP-node'')"
  by (simp add: BLOCKED_REGION_PATTERN_def re_match_at_def cps_def lit_def ustr_def ci_eq_def fold_case_def)

subsection \<open>Reachability Prober\<close>

lemma collect_alive_survivors:
  "collect_alive rs = Inr alive \<Longrightarrow> alive = survivors rs"
proof (induction rs arbitrary: alive rule: collect_alive.induct)
  case 1
  then show ?case by (simp add: survivors_def)
next
  case (2 e rest)
  then show ?case by simp
next
  case (3 proxy rest)
  then show ?case by (simp add: survivors_def)
next
  case (4 proxy latency rest)
  then show ?case by (auto simp: survivors_def split: sum.splits)
qed

lemma collect_alive_none:
  "\<forall>r\<in>set rs. \<exists>p. r = Inr (p, None) \<Longrightarrow> collect_alive rs = Inr []"
  by (induction rs rule: collect_alive.induct) auto

lemma survivors_mem:
  "(p, l) \<in> set (survivors rs) \<longleftrightarrow> Inr (p, Some l) \<in> set rs"
  by (induction rs) (auto simp: survivors_def split: sum.splits option.splits)

lemma ranked_alive_sorted:
  assumes "ranked_alive_objs py net order objs refs = Inr alive"
  shows "sorted (map snd alive)"
    and "filter (\<lambda>x. snd x = k) alive
           = filter (\<lambda>x. snd x = k)
               (survivors (as_completed order (submit_all_objs py net objs refs)))"
    and "mset alive = mset (survivors (as_completed order (submit_all_objs py net objs refs)))"
proof -
  from assms obtain c
    where c: "collect_alive (as_completed order (submit_all_objs py net objs refs)) = Inr c"
      and a: "alive = sort_key snd c"
    by (auto simp: ranked_alive_objs_def split: sum.splits)
  have s: "c = survivors (as_completed order (submit_all_objs py net objs refs))"
    using collect_alive_survivors [OF c] .
  show "sorted (map snd alive)" by (simp add: a)
  show "filter (\<lambda>x. snd x = k) alive
           = filter (\<lambda>x. snd x = k)
               (survivors (as_completed order (submit_all_objs py net objs refs)))"
    unfolding a s by (rule sort_key_stable)
  show "mset alive = mset (survivors (as_completed order (submit_all_objs py net objs refs)))"
    by (simp add: a s)
qed

lemma submit_all_objs_nth:
  "i < length refs \<Longrightarrow>
   submit_all_objs py net objs refs ! i
     = (case test_single_proxy py (net i) (objs ! (refs ! i)) of
          Inl e \<Rightarrow> Inl e
        | Inr (proxy, latency) \<Rightarrow> Inr (refs ! i, latency))"
  by (simp add: submit_all_objs_def nth_enumerate_eq)

lemma length_submit_all_objs: "length (submit_all_objs py net objs refs) = length refs"
  by (simp add: submit_all_objs_def)

lemma test_single_proxy_same_node:
  "test_single_proxy py connect proxy = Inr (p, l) \<Longrightarrow> p = proxy"
  by (auto simp: test_single_proxy_def Let_def split: if_splits sum.splits conn_result.splits)

lemma survivors_from_tasks:
  assumes "valid_order order (length refs)"
    and "(r, l) \<in> set (survivors (as_completed order (submit_all_objs py net objs refs)))"
  shows "\<exists>i<length refs. refs ! i = r
           \<and> test_single_proxy py (net i) (objs ! r) = Inr (objs ! r, Some l)"
proof -
  from assms(2)
  have "Inr (r, Some l) \<in> set (as_completed order (submit_all_objs py net objs refs))"
    by (simp add: survivors_mem)
  then obtain i where i: "i \<in> set order"
    and s: "submit_all_objs py net objs refs ! i = Inr (r, Some l)"
    by (auto simp: as_completed_def)
  from i assms(1) have il: "i < length refs" by (auto simp: valid_order_def)
  from s obtain p where r: "refs ! i = r"
    and t: "test_single_proxy py (net i) (objs ! (refs ! i)) = Inr (p, Some l)"
    by (auto simp: submit_all_objs_nth [OF il] split: sum.splits)
  from test_single_proxy_same_node [OF t] t r il show ?thesis by auto
qed

lemma test_single_proxy_Some:
  assumes "test_single_proxy py connect proxy = Inr (p, Some l)"
  shows "\<exists>port x. py_int py (dict_get proxy k_port (VInt 0)) = Inr port
           \<and> connect (dict_get proxy k_server (VStr [])) port = Connected x \<and> l = round1 x"
  using assms
  by (auto simp: test_single_proxy_def Let_def split: if_splits sum.splits conn_result.splits)

lemma survivors_map_filter:
  "survivors rs
     = List.map_filter (\<lambda>r. case r of Inr (p, Some l) \<Rightarrow> Some (p, l) | _ \<Rightarrow> None) rs"
  by (induction rs) (auto simp: survivors_def split: sum.splits option.splits)

lemma mset_survivors_cong:
  fixes xs :: "(py_error + ('a \<times> int option)) list"
  assumes "mset xs = mset ys"
  shows "mset (survivors xs) = mset (survivors ys)"
proof -
  define h :: "py_error + ('a \<times> int option) \<Rightarrow> ('a \<times> int) option"
    where "h = (\<lambda>r. case r of Inr (p, Some l) \<Rightarrow> Some (p, l) | _ \<Rightarrow> None)"
  have s: "survivors rs = map (the \<circ> h) (filter (\<lambda>x. h x \<noteq> None) rs)" for rs
    unfolding survivors_map_filter map_filter_def h_def ..
  have "mset (survivors rs) = image_mset (the \<circ> h) (filter_mset (\<lambda>x. h x \<noteq> None) (mset rs))"
    for rs
    unfolding s by simp
  with assms show ?thesis by simp
qed

lemma mset_as_completed:
  assumes "valid_order order (length futures)"
  shows "mset (as_completed order futures) = mset futures"
proof -
  from assms have d: "distinct order" and s0: "set order = {..<length futures}"
    unfolding valid_order_def by blast+
  have s: "set order = set [0..<length futures]"
    unfolding s0 by (simp add: atLeast0LessThan)
  have "mset order = mset [0..<length futures]"
    by (rule set_eq_iff_mset_eq_distinct [THEN iffD1, OF d distinct_upt s])
  then have "image_mset (\<lambda>i. futures ! i) (mset order)
           = image_mset (\<lambda>i. futures ! i) (mset [0..<length futures])"
    by (rule arg_cong)
  then have "mset (map (\<lambda>i. futures ! i) order) = mset (map (\<lambda>i. futures ! i) [0..<length futures])"
    by (simp only: mset_map)
  then show ?thesis by (simp only: as_completed_def map_nth)
qed

lemma mset_ranked_alive:
  assumes "valid_order order (length refs)"
    and "ranked_alive_objs py net order objs refs = Inr alive"
  shows "mset alive = mset (survivors (submit_all_objs py net objs refs))"
proof -
  have "valid_order order (length (submit_all_objs py net objs refs))"
    using assms(1) by (simp add: length_submit_all_objs)
  then have "mset (survivors (as_completed order (submit_all_objs py net objs refs)))
           = mset (survivors (submit_all_objs py net objs refs))"
    by (intro mset_survivors_cong mset_as_completed)
  with ranked_alive_sorted(3) [OF assms(2)] show ?thesis by simp
qed

lemma alive_iff_probe:
  assumes "valid_order order (length refs)"
    and "ranked_alive_objs py net order objs refs = Inr alive"
  shows "(r, l) \<in> set alive \<longleftrightarrow>
         (\<exists>i<length refs. refs ! i = r
            \<and> (\<exists>p. test_single_proxy py (net i) (objs ! r) = Inr (p, Some l)))"
proof
  assume "(r, l) \<in> set alive"
  then have "(r, l) \<in> set (survivors (as_completed order (submit_all_objs py net objs refs)))"
    using ranked_alive_sorted(3) [OF assms(2)] by (metis set_mset_mset)
  from survivors_from_tasks [OF assms(1) this]
  show "\<exists>i<length refs. refs ! i = r
            \<and> (\<exists>p. test_single_proxy py (net i) (objs ! r) = Inr (p, Some l))"
    by blast
next
  assume "\<exists>i<length refs. refs ! i = r
            \<and> (\<exists>p. test_single_proxy py (net i) (objs ! r) = Inr (p, Some l))"
  then obtain i p where i: "i < length refs" and r: "refs ! i = r"
    and t: "test_single_proxy py (net i) (objs ! r) = Inr (p, Some l)" by blast
  from i r t have "submit_all_objs py net objs refs ! i = Inr (r, Some l)"
    by (simp add: submit_all_objs_nth)
  moreover from i assms(1) have "i \<in> set order" by (simp add: valid_order_def)
  ultimately
  have "Inr (r, Some l) \<in> set (as_completed order (submit_all_objs py net objs refs))"
    by (force simp: as_completed_def)
  then have "(r, l) \<in> set (survivors (as_completed order (submit_all_objs py net objs refs)))"
    by (simp add: survivors_mem)
  then show "(r, l) \<in> set alive"
    using ranked_alive_sorted(3) [OF assms(2)] by (metis set_mset_mset)
qed

lemma collect_alive_total:
  "\<forall>r\<in>set rs. \<exists>x. r = Inr x \<Longrightarrow> \<exists>alive. collect_alive rs = Inr alive"
  by (induction rs rule: collect_alive.induct) auto

text \<open>The survivors refer to different objects when the entries of the list do.\<close>

lemma survivors_enumerate_refs:
  assumes "\<And>i r p l. f (i, r) = Inr (p, l) \<Longrightarrow> p = r"
  shows "map fst (survivors (map f (enumerate n refs)))
           = map snd (filter (\<lambda>ir. \<exists>p l. f ir = Inr (p, Some l)) (enumerate n refs))"
proof (induction refs arbitrary: n)
  case Nil
  then show ?case by (simp add: survivors_def)
next
  case (Cons r refs)
  have s: "survivors (x # xs) = survivors [x] @ survivors xs" for x :: "py_error + ('a \<times> int option)" and xs
    by (simp add: survivors_def)
  show ?case
  proof (cases "f (n, r)")
    case (Inl e)
    with Cons.IH [of "Suc n"] show ?thesis by (simp add: survivors_def)
  next
    case (Inr pl)
    obtain p l where pl: "pl = (p, l)" by (cases pl)
    from assms Inr pl have "p = r" by simp
    with Cons.IH [of "Suc n"] Inr pl show ?thesis
      by (cases l) (simp_all add: survivors_def)
  qed
qed

lemma distinct_survivors:
  assumes "distinct refs"
  shows "distinct (map fst (survivors (submit_all_objs py net objs refs)))"
proof -
  define f where "f = (\<lambda>(i, r). case test_single_proxy py (net i) (objs ! r) of
                      Inl e \<Rightarrow> Inl e
                    | Inr (proxy, latency) \<Rightarrow> Inr (r, latency))"
  have "p = r" if "f (i, r) = Inr (p, l)" for i r p l
    using that by (auto simp: f_def split: sum.splits)
  then have "map fst (survivors (map f (enumerate 0 refs)))
           = map snd (filter (\<lambda>ir. \<exists>p l. f ir = Inr (p, Some l)) (enumerate 0 refs))"
    by (rule survivors_enumerate_refs)
  moreover have "distinct (map snd (filter P (enumerate 0 refs)))" for P
    using assms by (intro distinct_map_filter) (simp add: enumerate_eq_zip)
  ultimately show ?thesis by (simp add: submit_all_objs_def f_def)
qed

lemma distinct_ranked_alive:
  assumes "valid_order order (length refs)" and "distinct refs"
    and "ranked_alive_objs py net order objs refs = Inr alive"
  shows "distinct (map fst alive)"
proof -
  have "mset (map fst alive) = mset (map fst (survivors (submit_all_objs py net objs refs)))"
    using mset_ranked_alive [OF assms(1,3)] by (metis mset_map)
  then show ?thesis
    using distinct_survivors [OF assms(2)] by (metis mset_eq_imp_distinct_iff)
qed

text \<open>The renaming loop.\<close>

lemma add_latency_marks_objs_result:
  "add_latency_marks_objs py objs alive = Inr (objs', result) \<Longrightarrow>
   result = map fst alive \<and> length objs' = length objs"
proof (induction alive arbitrary: objs objs' result)
  case Nil
  then show ?case by simp
next
  case (Cons a alive)
  obtain r l where a: "a = (r, l)" by (cases a)
  from Cons.prems obtain nm rest
    where "add_latency_marks_objs py
             (objs[r := AList.update k_name (VStr (latency_mark py l nm)) (objs ! r)]) alive
           = Inr (objs', rest)"
      and "result = r # rest"
    by (auto simp: a split: option.splits sum.splits)
  with Cons.IH [OF this(1)] show ?case by (simp add: a)
qed

lemma add_latency_marks_objs_frame:
  "add_latency_marks_objs py objs alive = Inr (objs', result) \<Longrightarrow> r \<notin> fst ` set alive \<Longrightarrow>
   objs' ! r = objs ! r"
proof (induction alive arbitrary: objs objs' result)
  case Nil
  then show ?case by simp
next
  case (Cons a alive)
  obtain r0 l where a: "a = (r0, l)" by (cases a)
  from Cons.prems(1) obtain nm rest
    where "add_latency_marks_objs py
             (objs[r0 := AList.update k_name (VStr (latency_mark py l nm)) (objs ! r0)]) alive
           = Inr (objs', rest)"
    by (auto simp: a split: option.splits sum.splits)
  from Cons.IH [OF this] Cons.prems(2) show ?case by (simp add: a)
qed

lemma add_latency_marks_objs_other_keys:
  "add_latency_marks_objs py objs alive = Inr (objs', result) \<Longrightarrow> key \<noteq> k_name \<Longrightarrow>
   map_of (objs' ! r) key = map_of (objs ! r) key"
proof (induction alive arbitrary: objs objs' result)
  case Nil
  then show ?case by simp
next
  case (Cons a alive)
  obtain r0 l where a: "a = (r0, l)" by (cases a)
  define objs1 where "objs1 = (\<lambda>nm. objs[r0 := AList.update k_name (VStr (latency_mark py l nm)) (objs ! r0)])"
  from Cons.prems(1) obtain nm rest
    where "add_latency_marks_objs py (objs1 nm) alive = Inr (objs', rest)"
    by (auto simp: a objs1_def split: option.splits sum.splits)
  from Cons.IH [OF this Cons.prems(2)]
  have "map_of (objs' ! r) key = map_of (objs1 nm ! r) key" .
  also have "\<dots> = map_of (objs ! r) key"
  proof (cases "r = r0 \<and> r0 < length objs")
    case True
    with Cons.prems(2) show ?thesis by (simp add: objs1_def update_conv')
  next
    case False
    then show ?thesis by (cases "r0 < length objs") (auto simp: objs1_def list_update_beyond)
  qed
  finally show ?case .
qed

lemma add_latency_marks_objs_marks:
  assumes "distinct (map fst alive)" and "\<forall>pl\<in>set alive. fst pl < length objs"
    and "add_latency_marks_objs py objs alive = Inr (objs', result)"
    and "(r, l) \<in> set alive"
  shows "\<exists>nm. map_of (objs ! r) k_name = Some nm
           \<and> objs' ! r = AList.update k_name (VStr (latency_mark py l nm)) (objs ! r)"
  using assms
proof (induction alive arbitrary: objs objs' result)
  case Nil
  then show ?case by simp
next
  case (Cons a alive)
  obtain r0 l0 where a: "a = (r0, l0)" by (cases a)
  from Cons.prems(3) obtain nm rest where nm: "map_of (objs ! r0) k_name = Some nm"
    and rec: "add_latency_marks_objs py
             (objs[r0 := AList.update k_name (VStr (latency_mark py l0 nm)) (objs ! r0)]) alive
           = Inr (objs', rest)"
    by (auto simp: a split: option.splits sum.splits)
  define objs1 where "objs1 = objs[r0 := AList.update k_name (VStr (latency_mark py l0 nm)) (objs ! r0)]"
  from Cons.prems(1) have r0: "r0 \<notin> fst ` set alive" and d: "distinct (map fst alive)"
    by (simp_all add: a)
  from Cons.prems(2) have b0: "r0 < length objs" and b: "\<forall>pl\<in>set alive. fst pl < length objs1"
    by (simp_all add: a objs1_def)
  show ?case
  proof (cases "(r, l) = (r0, l0)")
    case True
    have "objs' ! r0 = objs1 ! r0"
      using rec r0 unfolding objs1_def [symmetric] by (rule add_latency_marks_objs_frame)
    with True nm b0 show ?thesis by (simp add: objs1_def)
  next
    case False
    with Cons.prems(4) have m: "(r, l) \<in> set alive" by (auto simp: a)
    with r0 have ne: "r \<noteq> r0" by force
    from Cons.IH [OF d b rec [unfolded objs1_def [symmetric]] m] ne show ?thesis
      by (simp add: objs1_def)
  qed
qed

lemma add_latency_marks_objs_total:
  "\<forall>pl\<in>set alive. map_of (objs ! fst pl) k_name \<noteq> None \<Longrightarrow>
   \<exists>res. add_latency_marks_objs py objs alive = Inr res"
proof (induction alive arbitrary: objs)
  case Nil
  then show ?case by simp
next
  case (Cons a alive)
  obtain r l where a: "a = (r, l)" by (cases a)
  from Cons.prems obtain nm where nm: "map_of (objs ! r) k_name = Some nm" by (auto simp: a)
  define objs1 where "objs1 = objs[r := AList.update k_name (VStr (latency_mark py l nm)) (objs ! r)]"
  have "map_of (objs1 ! fst pl) k_name \<noteq> None" if "pl \<in> set alive" for pl
  proof (cases "fst pl = r \<and> r < length objs")
    case True
    then show ?thesis by (simp add: objs1_def update_conv')
  next
    case False
    with Cons.prems that show ?thesis
      by (cases "r < length objs") (auto simp: objs1_def list_update_beyond)
  qed
  then have "\<exists>res. add_latency_marks_objs py objs1 alive = Inr res"
    by (intro Cons.IH) blast
  then show ?case by (auto simp: a nm objs1_def [symmetric])
qed

lemma test_proxies_latency_objs_total:
  assumes "\<forall>r\<in>set refs. map_of (objs ! r) k_name \<noteq> None"
    and "valid_order order (length refs)"
    and "\<forall>i<length refs. \<exists>res. test_single_proxy py (net i) (objs ! (refs ! i)) = Inr res"
  shows "\<exists>res. test_proxies_latency_objs py net order objs refs = Inr res"
proof -
  have "\<forall>r\<in>set (as_completed order (submit_all_objs py net objs refs)). \<exists>x. r = Inr x"
    using assms(2,3)
    by (auto simp: as_completed_def submit_all_objs_nth valid_order_def split: sum.splits)
  from collect_alive_total [OF this] obtain c
    where c: "collect_alive (as_completed order (submit_all_objs py net objs refs)) = Inr c"
    by blast
  then have r: "ranked_alive_objs py net order objs refs = Inr (sort_key snd c)"
    by (simp add: ranked_alive_objs_def)
  have "map_of (objs ! fst pl) k_name \<noteq> None" if "pl \<in> set (sort_key snd c)" for pl
  proof -
    obtain p l where pl: "pl = (p, l)" by (cases pl)
    from that
    have "(p, l) \<in> set (survivors (as_completed order (submit_all_objs py net objs refs)))"
      by (simp add: pl collect_alive_survivors [OF c])
    from survivors_from_tasks [OF assms(2) this] obtain i where "i < length refs"
      and "refs ! i = p" by blast
    then have "p \<in> set refs" by auto
    with assms(1) show ?thesis by (simp add: pl)
  qed
  then have "\<exists>res. add_latency_marks_objs py objs (sort_key snd c) = Inr res"
    by (intro add_latency_marks_objs_total) blast
  with r show ?thesis by (simp add: test_proxies_latency_objs_def)
qed

text \<open>The rounding, the digits and the mark.\<close>

lemma round_half_even_nearest:
  "\<bar>x - of_int (round_half_even x)\<bar> \<le> 1 / 2"
  "\<bar>x - of_int (round_half_even x)\<bar> = 1 / 2 \<Longrightarrow> even (round_half_even x)"
  "0 \<le> x \<Longrightarrow> 0 \<le> round_half_even x"
proof -
  define f where "f = \<lfloor>x\<rfloor>"
  have f: "of_int f \<le> x" "x < of_int f + 1" by (simp_all add: f_def)
  have r: "round_half_even x
         = (if x - of_int f < 1 / 2 then f
            else if 1 / 2 < x - of_int f then f + 1 else if even f then f else f + 1)"
    by (simp add: round_half_even_def Let_def f_def)
  show "\<bar>x - of_int (round_half_even x)\<bar> \<le> 1 / 2"
    using f unfolding r by (auto simp: abs_if)
  show "even (round_half_even x)" if "\<bar>x - of_int (round_half_even x)\<bar> = 1 / 2"
    using that f unfolding r by (auto simp: abs_if split: if_splits)
  show "0 \<le> round_half_even x" if "0 \<le> x"
  proof -
    from that have "0 \<le> f" by (simp add: f_def)
    then show ?thesis unfolding r by auto
  qed
qed

lemma digits_value_snoc: "digits_value (ds @ [c]) = 10 * digits_value ds + (c - 48)"
  by (simp add: digits_value_def)

lemma str_nat_digits:
  "is_digits (str_nat n) \<and> digits_value (str_nat n) = n
     \<and> (hd (str_nat n) = 48 \<longrightarrow> str_nat n = [48])"
proof (induction n rule: str_nat.induct)
  case (1 n)
  show ?case
  proof (cases "n < 10")
    case True
    then show ?thesis
      by (auto simp: str_nat.simps [of n] str_nat.simps [of 0] is_digits_def digits_value_def)
  next
    case False
    with 1 have ih: "is_digits (str_nat (n div 10))"
      "digits_value (str_nat (n div 10)) = n div 10"
      "hd (str_nat (n div 10)) = 48 \<longrightarrow> str_nat (n div 10) = [48]"
      by simp_all
    have s: "str_nat n = str_nat (n div 10) @ [48 + n mod 10]"
      using False by (simp add: str_nat.simps [of n])
    from ih(1) have ne: "str_nat (n div 10) \<noteq> []" by (simp add: is_digits_def)
    have "hd (str_nat n) \<noteq> 48"
    proof
      assume "hd (str_nat n) = 48"
      with ne have "hd (str_nat (n div 10)) = 48" by (simp add: s)
      with ih(3) have "str_nat (n div 10) = [48]" by simp
      with ih(2) have "n div 10 = 0" by (simp add: digits_value_def)
      with False show False by simp
    qed
    moreover have "is_digits (str_nat n)"
      using ih(1) by (simp add: s is_digits_def)
    moreover have "digits_value (str_nat n) = n"
      by (simp add: s digits_value_snoc ih(2))
    ultimately show ?thesis by simp
  qed
qed

lemma latency_mark_whole_ms:
  assumes "0 \<le> l"
  shows "\<exists>ds. latency_mark py l nm = ustr ''['' @ ds @ ustr ''ms] '' @ py_str py nm
           \<and> is_digits ds \<and> (hd ds = 48 \<longrightarrow> ds = [48])
           \<and> 10 * int (digits_value ds) \<le> l \<and> l < 10 * int (digits_value ds) + 10"
proof -
  define ds where "ds = str_nat (nat (l div 10))"
  from assms have d: "0 \<le> l div 10" by simp
  have m: "latency_mark py l nm = ustr ''['' @ ds @ ustr ''ms] '' @ py_str py nm"
    using assms d by (simp add: latency_mark_def int_of_tenths_def str_int_def ds_def)
  have v: "int (digits_value ds) = l div 10"
    using d str_nat_digits [of "nat (l div 10)"] by (simp add: ds_def)
  have "10 * (l div 10) \<le> l" "l < 10 * (l div 10) + 10" by presburger+
  with m v str_nat_digits [of "nat (l div 10)"] show ?thesis
    unfolding ds_def [symmetric] by auto
qed

text \<open>The examples.\<close>

lemma probe_mk_node:
  "connect (VStr (ustr ''example.org'')) 443 = Connected x \<Longrightarrow>
   test_single_proxy py connect (mk_node s) = Inr (mk_node s, Some (round1 x))"
  by (simp add: test_single_proxy_def mk_node_def dict_get_def keys)

lemma probe_const:
  "test_single_proxy py (net_const x i) (mk_node s) = Inr (mk_node s, Some (round1 x))"
  by (simp add: probe_mk_node net_const_def)

lemma round1_100: "round1 10 = 100"
  by (simp add: round1_def round_half_even_def Let_def)

lemma round1_200: "round1 20 = 200"
  by (simp add: round1_def round_half_even_def Let_def)

lemma round1_1234: "round1 (617 / 5) = 1234"
  by (simp add: round1_def round_half_even_def Let_def)

lemma round1_1236: "round1 (618 / 5) = 1236"
  by (simp add: round1_def round_half_even_def Let_def)

lemma mark_10: "latency_mark py 100 (VStr (ustr s)) = ustr (''[10ms] '' @ s)"
  by (simp add: latency_mark_def int_of_tenths_def str_int_def str_nat.simps ustr_def)

lemma mark_1234: "latency_mark py 1234 (VStr (ustr s)) = ustr (''[123ms] '' @ s)"
  by (simp add: latency_mark_def int_of_tenths_def str_int_def str_nat.simps ustr_def)

lemma mark_1236: "latency_mark py 1236 (VStr (ustr s)) = ustr (''[123ms] '' @ s)"
  by (simp add: latency_mark_def int_of_tenths_def str_int_def str_nat.simps ustr_def)

lemmas prober_eval = test_proxies_latency_def test_proxies_latency_objs_def
  ranked_alive_objs_def as_completed_def submit_all_objs_def probe_const name_mk_node
  renamed_def

lemma tie_reversed:
  "test_proxies_latency py0 (net_const 10) [Suc 0, 0] [mk_node ''A'', mk_node ''B'']
     = Inr [renamed ''[10ms] B'' ''B'', renamed ''[10ms] A'' ''A'']"
  by (simp add: prober_eval round1_100 mark_10)

lemma tie_input_order:
  "test_proxies_latency py0 (net_const 10) [0, Suc 0] [mk_node ''A'', mk_node ''B'']
     = Inr [renamed ''[10ms] A'' ''A'', renamed ''[10ms] B'' ''B'']"
  by (simp add: prober_eval round1_100 mark_10)

lemma tokyo_1236:
  "test_proxies_latency py0 (net_const (1236 / 10)) [0] [mk_node ''Tokyo-1'']
     = Inr [renamed ''[123ms] Tokyo-1'' ''Tokyo-1'']"
  by (simp add: prober_eval round1_1236 mark_1236)

lemma renamed_neq: "renamed ''[123ms] Tokyo-1'' ''Tokyo-1'' \<noteq> renamed ''[124ms] Tokyo-1'' ''Tokyo-1''"
  by (simp add: renamed_def mk_node_def keys)

text \<open>
  One dictionary listed twice, both probes succeeding after 10 and after 20 ms: the
  second renaming reads the name the first one wrote, and both entries of the result show
  the two marks.
\<close>

lemma shared_node_marks_stack:
  "test_proxies_latency_objs py0 (net_by_task [10, 20]) [0, Suc 0] [mk_node ''A_1''] [0, 0]
     = Inr ([renamed ''[20ms] [10ms] A_1'' ''A_1''], [0, 0])"
  by (simp add: test_proxies_latency_objs_def ranked_alive_objs_def as_completed_def
      submit_all_objs_def probe_mk_node net_by_task_def round1_100 round1_200 name_mk_node
      renamed_def update_conv' latency_mark_def int_of_tenths_def str_int_def str_nat.simps
      ustr_def)

lemma probe_skips_malformed:
  assumes "map_of proxy k_port = None \<or> map_of proxy k_port = Some (VInt 0)
           \<or> map_of proxy k_port = Some (VFloat (FFin 0))
           \<or> (\<exists>v. map_of proxy k_port = Some v \<and> (py_int py v = Inl ValueError \<or> py_int py v = Inl TypeError))
           \<or> map_of proxy k_server = None \<or> map_of proxy k_server = Some (VStr [])"
  shows "test_single_proxy py connect proxy = Inr (proxy, None)"
  using assms
  by (auto simp: test_single_proxy_def dict_get_def Let_def split: option.splits sum.splits)

subsection \<open>Region Classifier\<close>

lemma set_first_seen: "set (first_seen xs) = set xs"
  by (induction xs) auto

lemma distinct_first_seen: "distinct (first_seen xs)"
  by (induction xs) auto

lemma match_region_str_total: "\<exists>r. match_region cat (VStr s) = Inr r"
  by (induction cat) auto

lemma match_region_first:
  "match_region cat (VStr s) = Inr (Some r) \<longleftrightarrow>
   (\<exists>i<length cat. re_search (fst (cat ! i)) s \<and> snd (cat ! i) = r
       \<and> (\<forall>j<i. \<not> re_search (fst (cat ! j)) s))"
proof (induction cat)
  case Nil
  then show ?case by simp
next
  case (Cons a cat)
  obtain pat lab where a: "a = (pat, lab)" by (cases a)
  show ?case
  proof (cases "re_search pat s")
    case True
    have "(\<exists>i<length (a # cat). re_search (fst ((a # cat) ! i)) s \<and> snd ((a # cat) ! i) = r
       \<and> (\<forall>j<i. \<not> re_search (fst ((a # cat) ! j)) s)) \<longleftrightarrow> lab = r"
    proof
      assume "\<exists>i<length (a # cat). re_search (fst ((a # cat) ! i)) s \<and> snd ((a # cat) ! i) = r
       \<and> (\<forall>j<i. \<not> re_search (fst ((a # cat) ! j)) s)"
      then obtain i where i: "snd ((a # cat) ! i) = r" "\<forall>j<i. \<not> re_search (fst ((a # cat) ! j)) s"
        by blast
      have "i = 0"
      proof (rule ccontr)
        assume "i \<noteq> 0"
        then have "0 < i" by simp
        with i(2) have "\<not> re_search (fst ((a # cat) ! 0)) s" by blast
        with True show False by (simp add: a)
      qed
      with i(1) show "lab = r" by (simp add: a)
    next
      assume "lab = r"
      with True show "\<exists>i<length (a # cat). re_search (fst ((a # cat) ! i)) s \<and> snd ((a # cat) ! i) = r
       \<and> (\<forall>j<i. \<not> re_search (fst ((a # cat) ! j)) s)"
        by (intro exI [of _ 0]) (simp add: a)
    qed
    with True show ?thesis by (simp add: a)
  next
    case False
    have "(\<exists>i<length (a # cat). re_search (fst ((a # cat) ! i)) s \<and> snd ((a # cat) ! i) = r
       \<and> (\<forall>j<i. \<not> re_search (fst ((a # cat) ! j)) s)) \<longleftrightarrow>
          (\<exists>i<length cat. re_search (fst (cat ! i)) s \<and> snd (cat ! i) = r
       \<and> (\<forall>j<i. \<not> re_search (fst (cat ! j)) s))" (is "?L \<longleftrightarrow> ?R")
    proof
      assume ?L
      then obtain i where i: "i < length (a # cat)" "re_search (fst ((a # cat) ! i)) s"
        "snd ((a # cat) ! i) = r" "\<forall>j<i. \<not> re_search (fst ((a # cat) ! j)) s" by blast
      have "i \<noteq> 0"
      proof
        assume "i = 0"
        with i(2) False show False by (simp add: a)
      qed
      then obtain k where k: "i = Suc k" by (cases i) auto
      have "\<forall>j<k. \<not> re_search (fst (cat ! j)) s"
      proof (intro allI impI)
        fix j assume "j < k"
        then have "Suc j < i" by (simp add: k)
        with i(4) have "\<not> re_search (fst ((a # cat) ! Suc j)) s" by blast
        then show "\<not> re_search (fst (cat ! j)) s" by simp
      qed
      with i(1-3) show ?R by (intro exI [of _ k]) (simp add: k)
    next
      assume ?R
      then obtain k where k: "k < length cat" "re_search (fst (cat ! k)) s"
        "snd (cat ! k) = r" "\<forall>j<k. \<not> re_search (fst (cat ! j)) s" by blast
      have "\<forall>j<Suc k. \<not> re_search (fst ((a # cat) ! j)) s"
      proof (intro allI impI)
        fix j assume j: "j < Suc k"
        show "\<not> re_search (fst ((a # cat) ! j)) s"
        proof (cases j)
          case 0
          with False show ?thesis by (simp add: a)
        next
          case (Suc m)
          with j k(4) show ?thesis by simp
        qed
      qed
      with k(1-3) show ?L by (intro exI [of _ "Suc k"]) simp
    qed
    with False Cons.IH show ?thesis by (simp add: a)
  qed
qed

lemma match_region_none:
  "match_region cat (VStr s) = Inr None \<longleftrightarrow> (\<forall>i<length cat. \<not> re_search (fst (cat ! i)) s)"
proof (induction cat)
  case Nil
  then show ?case by simp
next
  case (Cons a cat)
  obtain pat lab where a: "a = (pat, lab)" by (cases a)
  have "(\<forall>i<length (a # cat). \<not> re_search (fst ((a # cat) ! i)) s) \<longleftrightarrow>
        (\<not> re_search pat s \<and> (\<forall>i<length cat. \<not> re_search (fst (cat ! i)) s))"
    by (auto simp: a nth_Cons split: nat.splits)
  with Cons.IH show ?case by (simp add: a)
qed

lemma members_setdefault_append:
  "members (setdefault_append g r nm) r' = (if r' = r then members g r @ [nm] else members g r')"
  by (auto simp: members_def setdefault_append_def update_conv' map_add_def
      split: option.splits)

lemma keys_setdefault_append:
  "map fst (setdefault_append g r nm)
     = (if r \<in> set (map fst g) then map fst g else map fst g @ [r])"
  by (auto simp: setdefault_append_def update_keys map_of_eq_None_iff
      split: option.splits dest: map_of_SomeD)

lemma set_update_sub: "set (AList.update k v al) \<subseteq> insert (k, v) (set al)"
  by (induction al) auto

lemma nonempty_setdefault_append:
  assumes g: "\<forall>x\<in>set g. snd x \<noteq> []"
  shows "\<forall>x\<in>set (setdefault_append g r nm). snd x \<noteq> []"
proof (cases "map_of g r")
  case None
  with g show ?thesis by (simp add: setdefault_append_def)
next
  case (Some ms)
  have "set (AList.update r (ms @ [nm]) g) \<subseteq> insert (r, ms @ [nm]) (set g)"
    by (rule set_update_sub)
  with g have "\<forall>x\<in>set (AList.update r (ms @ [nm]) g). snd x \<noteq> []" by auto
  with Some show ?thesis by (simp add: setdefault_append_def)
qed

lemma classify_loop_total:
  "\<forall>p\<in>set proxies. has_str_name p \<Longrightarrow> \<exists>g. classify_loop cat acc proxies = Inr g"
proof (induction proxies arbitrary: acc)
  case Nil
  then show ?case by simp
next
  case (Cons p ps)
  from Cons.prems obtain s where s: "map_of p k_name = Some (VStr s)"
    by (auto simp: has_str_name_def split: option.splits pyval.splits)
  obtain r where r: "match_region cat (VStr s) = Inr r"
    using match_region_str_total by blast
  from Cons.prems have ps: "\<forall>p\<in>set ps. has_str_name p" by simp
  show ?case
    using Cons.IH [OF ps] by (cases r) (simp_all add: s r)
qed

lemma classify_loop_members:
  "classify_loop cat acc proxies = Inr g \<Longrightarrow>
   members g r = members acc r @ map snd (filter (\<lambda>x. fst x = r) (matched cat proxies))"
proof (induction proxies arbitrary: acc)
  case Nil
  then show ?case by (simp add: matched_def)
next
  case (Cons p ps)
  from Cons.prems obtain nm where nm: "map_of p k_name = Some nm"
    by (auto split: option.splits)
  from Cons.prems nm obtain lab where lab: "match_region cat nm = Inr lab"
    by (auto split: sum.splits)
  show ?case
  proof (cases lab)
    case None
    with Cons.prems nm lab have "classify_loop cat acc ps = Inr g" by simp
    from Cons.IH [OF this] show ?thesis
      by (simp add: matched_def matched_node_def nm lab None)
  next
    case (Some r')
    with Cons.prems nm lab have "classify_loop cat (setdefault_append acc r' nm) ps = Inr g"
      by simp
    from Cons.IH [OF this] show ?thesis
      by (simp add: matched_def matched_node_def nm lab Some members_setdefault_append)
  qed
qed

lemma classify_loop_keys:
  "classify_loop cat acc proxies = Inr g \<Longrightarrow>
   map fst g = map fst acc
     @ filter (\<lambda>r. r \<notin> set (map fst acc)) (first_seen (map fst (matched cat proxies)))"
proof (induction proxies arbitrary: acc)
  case Nil
  then show ?case by (simp add: matched_def)
next
  case (Cons p ps)
  from Cons.prems obtain nm where nm: "map_of p k_name = Some nm"
    by (auto split: option.splits)
  from Cons.prems nm obtain lab where lab: "match_region cat nm = Inr lab"
    by (auto split: sum.splits)
  show ?case
  proof (cases lab)
    case None
    with Cons.prems nm lab have "classify_loop cat acc ps = Inr g" by simp
    from Cons.IH [OF this] show ?thesis
      by (simp add: matched_def matched_node_def nm lab None)
  next
    case (Some r')
    with Cons.prems nm lab have "classify_loop cat (setdefault_append acc r' nm) ps = Inr g"
      by simp
    from Cons.IH [OF this]
    have g: "map fst g = map fst (setdefault_append acc r' nm)
       @ filter (\<lambda>r. r \<notin> set (map fst (setdefault_append acc r' nm)))
           (first_seen (map fst (matched cat ps)))" .
    have m: "matched cat (p # ps) = (r', nm) # matched cat ps"
      by (simp add: matched_def matched_node_def nm lab Some)
    show ?thesis
    proof (cases "r' \<in> set (map fst acc)")
      case True
      have "filter (\<lambda>r. r \<notin> set (map fst acc)) (filter (\<lambda>y. y \<noteq> r') (first_seen (map fst (matched cat ps))))
          = filter (\<lambda>r. r \<notin> set (map fst acc)) (first_seen (map fst (matched cat ps)))"
        using True by (auto intro: filter_cong)
      with True g show ?thesis by (simp add: m keys_setdefault_append)
    next
      case False
      have "filter (\<lambda>r. r \<notin> set (map fst acc)) (filter (\<lambda>y. y \<noteq> r') (first_seen (map fst (matched cat ps))))
          = filter (\<lambda>r. r \<notin> set (map fst acc @ [r'])) (first_seen (map fst (matched cat ps)))"
        by (auto intro: filter_cong)
      with False g show ?thesis by (simp add: m keys_setdefault_append)
    qed
  qed
qed

lemma classify_loop_nonempty:
  "classify_loop cat acc proxies = Inr g \<Longrightarrow> \<forall>x\<in>set acc. snd x \<noteq> [] \<Longrightarrow>
   \<forall>x\<in>set g. snd x \<noteq> []"
proof (induction proxies arbitrary: acc)
  case Nil
  then show ?case by simp
next
  case (Cons p ps)
  from Cons.prems(1) obtain nm where nm: "map_of p k_name = Some nm"
    by (auto split: option.splits)
  from Cons.prems(1) nm obtain lab where lab: "match_region cat nm = Inr lab"
    by (auto split: sum.splits)
  show ?case
  proof (cases lab)
    case None
    with Cons.prems nm lab have "classify_loop cat acc ps = Inr g" by simp
    from Cons.IH [OF this Cons.prems(2)] show ?thesis .
  next
    case (Some r')
    with Cons.prems nm lab have "classify_loop cat (setdefault_append acc r' nm) ps = Inr g"
      by simp
    from Cons.IH [OF this nonempty_setdefault_append [OF Cons.prems(2)]] show ?thesis .
  qed
qed

lemma classify_keys:
  assumes "classify cat proxies = Inr g"
  shows "map fst g = first_seen (map fst (matched cat proxies))"
    and "distinct (map fst g)"
    and "r \<in> set (map fst g) \<longleftrightarrow> members g r \<noteq> []"
    and "members g r = map snd (filter (\<lambda>x. fst x = r) (matched cat proxies))"
proof -
  from assms have l: "classify_loop cat [] proxies = Inr g" by (simp add: classify_def)
  from classify_loop_keys [OF l] show k: "map fst g = first_seen (map fst (matched cat proxies))"
    by simp
  then show "distinct (map fst g)" by (simp add: distinct_first_seen)
  from classify_loop_nonempty [OF l] have ne: "\<forall>x\<in>set g. snd x \<noteq> []" by simp
  show "r \<in> set (map fst g) \<longleftrightarrow> members g r \<noteq> []"
  proof
    assume "r \<in> set (map fst g)"
    then obtain ms where ms: "map_of g r = Some ms"
      by (metis map_of_eq_None_iff not_None_eq set_map)
    then have "(r, ms) \<in> set g" by (rule map_of_SomeD)
    with ne have "ms \<noteq> []" by auto
    with ms show "members g r \<noteq> []" by (simp add: members_def)
  next
    assume "members g r \<noteq> []"
    then have "map_of g r \<noteq> None" by (auto simp: members_def split: option.splits)
    then show "r \<in> set (map fst g)" by (simp add: map_of_eq_None_iff)
  qed
  from classify_loop_members [OF l, of r]
  show "members g r = map snd (filter (\<lambda>x. fst x = r) (matched cat proxies))"
    by (simp add: members_def)
qed

lemma region_jp_tokyo: "match_region REGION_MAP (VStr (ustr ''JP-Tokyo'')) = Inr (Some L_JAPAN)"
  by (simp add: REGION_MAP_def re_eval)

lemma region_jp_us: "match_region REGION_MAP (VStr (ustr ''JP-US'')) = Inr (Some L_JAPAN)"
  by (simp add: REGION_MAP_def re_eval)

lemma region_us_1: "match_region REGION_MAP (VStr (ustr ''US-1'')) = Inr (Some L_USA)"
  by (simp add: REGION_MAP_def re_eval)

lemma region_jp_1: "match_region REGION_MAP (VStr (ustr ''JP-1'')) = Inr (Some L_JAPAN)"
  by (simp add: REGION_MAP_def re_eval)

lemma region_plain: "match_region REGION_MAP (VStr (ustr ''relay-7'')) = Inr None"
  by (simp add: REGION_MAP_def re_eval)

lemma us_matches_later: "re_search (fst (REGION_MAP ! 1)) (ustr ''JP-US'')"
  by (simp add: REGION_MAP_def re_eval)

lemma set_matched_node:
  "(r, nm) \<in> set (matched_node cat p) \<longleftrightarrow>
   map_of p k_name = Some nm \<and> match_region cat nm = Inr (Some r)"
  by (auto simp: matched_node_def split: option.splits sum.splits)

lemma set_matched:
  "(r, nm) \<in> set (matched cat proxies) \<longleftrightarrow>
   (\<exists>p\<in>set proxies. map_of p k_name = Some nm \<and> match_region cat nm = Inr (Some r))"
  by (simp add: matched_def set_matched_node)

lemma classify_total:
  "\<forall>p\<in>set proxies. has_str_name p \<Longrightarrow> \<exists>g. classify cat proxies = Inr g"
  by (simp add: classify_def classify_loop_total)

lemma classify_us_jp:
  "classify_by_region [mk_node ''US-1'', mk_node ''JP-1'']
     = Inr [(L_USA, [VStr (ustr ''US-1'')]), (L_JAPAN, [VStr (ustr ''JP-1'')])]"
  by (simp add: classify_by_region_def classify_def name_mk_node region_us_1 region_jp_1
      setdefault_append_def labels)

subsection \<open>Node Normalizer\<close>

lemma py_strip_ends:
  "py_strip s = [] \<or> (\<not> is_space (hd (py_strip s)) \<and> \<not> is_space (last (py_strip s)))"
proof -
  define a where "a = dropWhile is_space s"
  define b where "b = dropWhile is_space (rev a)"
  have t: "py_strip s = rev b" by (simp add: py_strip_def a_def b_def)
  show ?thesis
  proof (cases "b = []")
    case True
    then show ?thesis by (simp add: t)
  next
    case False
    then have hb: "\<not> is_space (hd b)" unfolding b_def by (rule hd_dropWhile)
    from False have ra: "rev a \<noteq> []" by (auto simp: b_def)
    then have an: "a \<noteq> []" by simp
    then have ha: "\<not> is_space (hd a)" unfolding a_def by (rule hd_dropWhile)
    have "rev a = takeWhile is_space (rev a) @ b" by (simp add: b_def)
    then have "last (rev a) = last (takeWhile is_space (rev a) @ b)" by simp
    also have "\<dots> = last b" using False by simp
    finally have "last b = hd a" using an by (simp add: last_rev)
    with ha hb False show ?thesis by (simp add: t hd_rev last_rev)
  qed
qed

lemma py_strip_idem: "py_strip (py_strip s) = py_strip s"
proof -
  define t where "t = py_strip s"
  from py_strip_ends [of s] have e: "t = [] \<or> (\<not> is_space (hd t) \<and> \<not> is_space (last t))"
    by (simp add: t_def)
  have 1: "dropWhile is_space t = t" using e by (auto simp: dropWhile_eq_self_iff)
  have 2: "dropWhile is_space (rev t) = rev t"
    using e by (auto simp: dropWhile_eq_self_iff hd_rev)
  have "py_strip t = t" by (simp add: py_strip_def 1 2)
  then show ?thesis by (simp add: t_def)
qed

lemma norm_name_Some:
  "norm_name py (VDict d) = Some n \<longleftrightarrow>
   (\<exists>nm. map_of d k_name = Some nm \<and> map_of d k_type \<noteq> None \<and> map_of d k_server \<noteq> None
      \<and> py_strip (py_str py nm) = n \<and> n \<noteq> [])"
  by (cases "map_of d k_name") (auto simp: norm_name_def)

lemma key_neq: "k_type \<noteq> k_name" "k_server \<noteq> k_name"
  by (simp_all add: k_type_def k_name_def k_server_def ustr_def)

lemma norm_node_fixed:
  assumes "norm_node py v = Some d'"
  shows "norm_name py (VDict d') = norm_name py v" and "norm_node py (VDict d') = Some d'"
    and "\<exists>n. map_of d' k_name = Some (VStr n) \<and> norm_name py v = Some n"
proof -
  from assms obtain d where v: "v = VDict d" by (cases v) (auto simp: norm_node_def)
  from assms v obtain n where n: "norm_name py (VDict d) = Some n"
    and d': "d' = AList.update k_name (VStr n) d"
    by (auto simp: norm_node_def split: option.splits)
  from n obtain nm where nm: "map_of d k_name = Some nm" and ty: "map_of d k_type \<noteq> None"
    and sv: "map_of d k_server \<noteq> None" and ne: "n \<noteq> []" and nn: "py_strip (py_str py nm) = n"
    unfolding norm_name_Some by blast
  have m1: "map_of d' k_name = Some (VStr n)" by (simp add: d' update_conv')
  have m2: "map_of d' k_type = map_of d k_type" using key_neq by (simp add: d' update_conv')
  have m3: "map_of d' k_server = map_of d k_server" using key_neq by (simp add: d' update_conv')
  have sn: "py_strip n = n" using py_strip_idem [of "py_str py nm"] by (simp add: nn)
  have "norm_name py (VDict d') = Some n"
    unfolding norm_name_Some using m1 m2 m3 ty sv ne sn by simp
  then show 1: "norm_name py (VDict d') = norm_name py v" by (simp add: v n)
  have "AList.update k_name (VStr n) d' = d'" using m1 by (rule update_triv)
  with 1 show "norm_node py (VDict d') = Some d'" by (simp add: norm_node_def v n)
  from m1 n v show "\<exists>n. map_of d' k_name = Some (VStr n) \<and> norm_name py v = Some n" by simp
qed

lemma norm_node_None: "norm_node py v = None \<longleftrightarrow> norm_name py v = None"
  by (cases v) (auto simp: norm_node_def norm_name_def split: option.splits)

lemma dedup_loop_skip:
  "norm_name py v = None \<Longrightarrow> dedup_loop py seen (v # rest) = dedup_loop py seen rest"
proof (cases v)
  case (VDict d)
  assume n: "norm_name py v = None"
  show ?thesis
  proof (cases "map_of d k_name")
    case None
    then show ?thesis by (simp add: VDict)
  next
    case (Some nm)
    with n VDict have "map_of d k_type = None \<or> map_of d k_server = None
        \<or> py_strip (py_str py nm) = []"
      by (simp add: norm_name_def split: if_splits)
    with Some show ?thesis by (auto simp: VDict Let_def)
  qed
qed simp_all

text \<open>
  The loop on objects, and the loop on values for a list whose entries are objects of
  their own.
\<close>

lemma dedup_loop_objs_skip:
  assumes "norm_name py (objs ! r) = None"
  shows "dedup_loop_objs py seen objs (r # rest) = dedup_loop_objs py seen objs rest"
proof (cases "objs ! r")
  case (VDict d)
  show ?thesis
  proof (cases "map_of d k_name")
    case None
    then show ?thesis by (simp add: VDict)
  next
    case (Some nm)
    with assms VDict have "map_of d k_type = None \<or> map_of d k_server = None
        \<or> py_strip (py_str py nm) = []"
      by (simp add: norm_name_def split: if_splits)
    with Some show ?thesis by (auto simp: VDict Let_def)
  qed
qed simp_all

lemma dedup_loop_objs_keep:
  assumes "norm_name py (objs ! r) = Some n"
  shows "dedup_loop_objs py seen objs (r # rest) =
     (case map_of seen n of
        None \<Rightarrow>
          (case dedup_loop_objs py (AList.update n 0 seen)
                  (objs[r := VDict (AList.update k_name (VStr n) (dict_of (objs ! r)))]) rest of
             (objs', result) \<Rightarrow> (objs', r # result))
      | Some c \<Rightarrow>
          (case dedup_loop_objs py (AList.update n (c + 1) seen)
                  (objs[r := VDict (AList.update k_name (VStr (n @ ustr ''_'' @ str_int (c + 1)))
                                      (dict_of (objs ! r)))]) rest of
             (objs', result) \<Rightarrow> (objs', r # result)))"
proof -
  from assms obtain d where v: "objs ! r = VDict d"
    by (cases "objs ! r") (auto simp: norm_name_def)
  from assms v have "norm_name py (VDict d) = Some n" by simp
  then obtain nm where nm: "map_of d k_name = Some nm" and ty: "map_of d k_type \<noteq> None"
    and sv: "map_of d k_server \<noteq> None" and ne: "n \<noteq> []" and nn: "py_strip (py_str py nm) = n"
    unfolding norm_name_Some by blast
  show ?thesis
    using ty sv ne by (auto simp: v nm Let_def nn dict_of_def split: option.splits)
qed

lemma dedup_loop_keep:
  assumes "norm_name py v = Some n"
  shows "dedup_loop py seen (v # rest) =
     (case map_of seen n of
        None \<Rightarrow> AList.update k_name (VStr n) (dict_of v) # dedup_loop py (AList.update n 0 seen) rest
      | Some c \<Rightarrow>
          AList.update k_name (VStr (n @ ustr ''_'' @ str_int (c + 1))) (dict_of v)
            # dedup_loop py (AList.update n (c + 1) seen) rest)"
proof -
  from assms obtain d where v: "v = VDict d" by (cases v) (auto simp: norm_name_def)
  from assms v have "norm_name py (VDict d) = Some n" by simp
  then obtain nm where nm: "map_of d k_name = Some nm" and ty: "map_of d k_type \<noteq> None"
    and sv: "map_of d k_server \<noteq> None" and ne: "n \<noteq> []" and nn: "py_strip (py_str py nm) = n"
    unfolding norm_name_Some by blast
  show ?thesis
    using ty sv ne by (auto simp: v nm Let_def nn dict_of_def split: option.splits)
qed

lemma dedup_loop_objs_values:
  assumes "distinct refs" and "\<forall>r\<in>set refs. r < length objs"
    and "dedup_loop_objs py seen objs refs = (objs', result)"
  shows "length objs' = length objs \<and> set result \<subseteq> set refs
           \<and> (\<forall>j. j \<notin> set refs \<longrightarrow> objs' ! j = objs ! j)
           \<and> map (\<lambda>r. dict_of (objs' ! r)) result = dedup_loop py seen (map (\<lambda>r. objs ! r) refs)"
  using assms
proof (induction refs arbitrary: seen objs objs' result)
  case Nil
  then show ?case by simp
next
  case (Cons r refs)
  from Cons.prems have d: "distinct refs" and rn: "r \<notin> set refs"
    and b: "\<forall>r\<in>set refs. r < length objs" and rb: "r < length objs"
    by simp_all
  show ?case
  proof (cases "norm_name py (objs ! r)")
    case None
    have "dedup_loop_objs py seen objs refs = (objs', result)"
      using Cons.prems(3) unfolding dedup_loop_objs_skip [OF None] .
    from Cons.IH [OF d b this] show ?thesis
      by (auto simp: dedup_loop_skip [OF None])
  next
    case (Some n)
    define d1 where "d1 = (case map_of seen n of
        None \<Rightarrow> AList.update k_name (VStr n) (dict_of (objs ! r))
      | Some c \<Rightarrow> AList.update k_name (VStr (n @ ustr ''_'' @ str_int (c + 1))) (dict_of (objs ! r)))"
    define seen1 where "seen1 = (case map_of seen n of
        None \<Rightarrow> AList.update n 0 seen | Some c \<Rightarrow> AList.update n (c + 1) seen)"
    define objs1 where "objs1 = objs[r := VDict d1]"
    have step: "dedup_loop_objs py seen objs (r # refs)
        = (case dedup_loop_objs py seen1 objs1 refs of (objs', result) \<Rightarrow> (objs', r # result))"
      unfolding dedup_loop_objs_keep [OF Some] d1_def seen1_def objs1_def
      by (simp split: option.splits)
    have vstep: "dedup_loop py seen (objs ! r # xs) = d1 # dedup_loop py seen1 xs" for xs
      by (simp add: dedup_loop_keep [OF Some] d1_def seen1_def split: option.splits)
    from Cons.prems(3) obtain res where rec: "dedup_loop_objs py seen1 objs1 refs = (objs', res)"
      and result: "result = r # res"
      unfolding step by (auto split: prod.splits)
    have b1: "\<forall>r\<in>set refs. r < length objs1" using b by (simp add: objs1_def)
    from Cons.IH [OF d b1 rec]
    have l: "length objs' = length objs1" and sub: "set res \<subseteq> set refs"
      and fr: "\<forall>j. j \<notin> set refs \<longrightarrow> objs' ! j = objs1 ! j"
      and vs: "map (\<lambda>r. dict_of (objs' ! r)) res = dedup_loop py seen1 (map (\<lambda>r. objs1 ! r) refs)"
      by blast+
    have same: "map (\<lambda>r. objs1 ! r) refs = map (\<lambda>r. objs ! r) refs"
    proof (rule map_cong [OF refl])
      fix x
      assume "x \<in> set refs"
      with rn have "r \<noteq> x" by auto
      then show "objs1 ! x = objs ! x" by (simp add: objs1_def)
    qed
    have r1: "dict_of (objs' ! r) = d1"
      using fr rn rb by (simp add: objs1_def dict_of_def)
    have "\<forall>j. j \<notin> set (r # refs) \<longrightarrow> objs' ! j = objs ! j"
      using fr by (auto simp: objs1_def)
    moreover have "map (\<lambda>r. dict_of (objs' ! r)) result
        = dedup_loop py seen (map (\<lambda>r. objs ! r) (r # refs))"
      by (simp add: result r1 vs same vstep)
    moreover have "length objs' = length objs" using l by (simp add: objs1_def)
    moreover have "set result \<subseteq> set (r # refs)" using sub by (auto simp: result)
    ultimately show ?thesis by blast
  qed
qed

lemma deduplicate_proxies_values:
  "deduplicate_proxies py all_proxies = dedup_loop py [] all_proxies"
proof -
  obtain objs' result
    where r: "dedup_loop_objs py [] all_proxies [0..<length all_proxies] = (objs', result)"
    by (cases "dedup_loop_objs py [] all_proxies [0..<length all_proxies]")
  have "map (\<lambda>r. dict_of (objs' ! r)) result
      = dedup_loop py [] (map (\<lambda>r. all_proxies ! r) [0..<length all_proxies])"
    using dedup_loop_objs_values [OF _ _ r] by simp
  then show ?thesis
    by (simp add: deduplicate_proxies_def deduplicate_proxies_objs_def r map_nth)
qed

text \<open>
  One dictionary listed twice: the second entry reads the name the first one wrote,
  counts it as a repeat, and both entries of the result show the suffixed name.
\<close>

lemma shared_node_suffix:
  "deduplicate_proxies_objs py0 [VDict (mk_node ''A'')] [0, 0]
     = ([VDict (renamed ''A_1'' ''A'')], [0, 0])"
  by (simp add: deduplicate_proxies_objs_def mk_node_def renamed_def keys py0_def
      py_strip_def is_space_def str_int_def str_nat.simps)

lemma dedup_loop_fresh:
  assumes "norm_node py v = Some d'" and "norm_name py v = Some n" and "map_of seen n = None"
  shows "dedup_loop py seen (v # rest) = d' # dedup_loop py (AList.update n 0 seen) rest"
proof -
  from assms(1) obtain d where v: "v = VDict d" by (cases v) (auto simp: norm_node_def)
  from assms(1,2) v have d': "d' = AList.update k_name (VStr n) d"
    by (auto simp: norm_node_def)
  from assms(2) v have "norm_name py (VDict d) = Some n" by simp
  then obtain nm where nm: "map_of d k_name = Some nm" and ty: "map_of d k_type \<noteq> None"
    and sv: "map_of d k_server \<noteq> None" and ne: "n \<noteq> []" and nn: "py_strip (py_str py nm) = n"
    unfolding norm_name_Some by blast
  show ?thesis
    using ty sv ne assms(3) by (auto simp: v nm Let_def nn d')
qed

lemma dedup_loop_distinct:
  assumes "distinct (List.map_filter (norm_name py) raw)"
    and "set (List.map_filter (norm_name py) raw) \<inter> fst ` set seen = {}"
  shows "dedup_loop py seen raw = List.map_filter (norm_node py) raw"
  using assms
proof (induction raw arbitrary: seen)
  case Nil
  then show ?case by simp
next
  case (Cons v raw)
  show ?case
  proof (cases "norm_name py v")
    case None
    then have nn: "norm_node py v = None" by (simp add: norm_node_None)
    from Cons.prems None have "distinct (List.map_filter (norm_name py) raw)"
      and "set (List.map_filter (norm_name py) raw) \<inter> fst ` set seen = {}"
      by simp_all
    from Cons.IH [OF this] show ?thesis
      by (simp add: dedup_loop_skip [OF None] nn)
  next
    case (Some n)
    then obtain d' where d': "norm_node py v = Some d'"
      using norm_node_None [of py v] by (cases "norm_node py v") auto
    from Cons.prems Some have dist: "distinct (List.map_filter (norm_name py) raw)"
      and fresh: "n \<notin> set (List.map_filter (norm_name py) raw)"
      and seen: "n \<notin> fst ` set seen"
      and disj: "set (List.map_filter (norm_name py) raw) \<inter> fst ` set seen = {}"
      by auto
    from seen have none: "map_of seen n = None" by (simp add: map_of_eq_None_iff)
    have "set (List.map_filter (norm_name py) raw) \<inter> fst ` set (AList.update n 0 seen) = {}"
      using fresh disj by (auto simp: dom_update)
    from Cons.IH [OF dist this] show ?thesis
      by (simp add: dedup_loop_fresh [OF d' Some none] d')
  qed
qed

text \<open>Nodes in the form the Normalizer leaves: normalising such a node changes nothing.\<close>

lemma fixed_nodes_map_filter:
  "\<forall>d\<in>set nodes. norm_node py (VDict d) = Some d \<Longrightarrow>
   List.map_filter (norm_node py) (map VDict nodes) = nodes"
  by (induction nodes) simp_all

lemma fixed_node_name:
  assumes "norm_node py (VDict d) = Some d"
  shows "norm_name py (VDict d) = Some (trimmed_name d)" and "has_str_name d"
proof -
  from norm_node_fixed(3) [OF assms] obtain n where n: "map_of d k_name = Some (VStr n)"
    and nn: "norm_name py (VDict d) = Some n" by blast
  from n nn show "norm_name py (VDict d) = Some (trimmed_name d)" by (simp add: trimmed_name_def)
  from n show "has_str_name d" by (simp add: has_str_name_def)
qed

lemma fixed_nodes_names:
  "\<forall>d\<in>set nodes. norm_node py (VDict d) = Some d \<Longrightarrow>
   List.map_filter (norm_name py) (map VDict nodes) = map trimmed_name nodes"
  by (induction nodes) (simp_all add: fixed_node_name)

lemma map_filter_norm_node_fixed:
  "\<forall>d\<in>set (List.map_filter (norm_node py) raw). norm_node py (VDict d) = Some d"
proof (induction raw)
  case Nil
  then show ?case by simp
next
  case (Cons v raw)
  then show ?case
    by (cases "norm_node py v") (auto dest: norm_node_fixed(2))
qed

lemma map_filter_norm_node_names:
  "map trimmed_name (List.map_filter (norm_node py) raw) = List.map_filter (norm_name py) raw"
proof (induction raw)
  case Nil
  then show ?case by simp
next
  case (Cons v raw)
  show ?case
  proof (cases "norm_node py v")
    case None
    then have "norm_name py v = None" by (simp add: norm_node_None)
    with None Cons.IH show ?thesis by simp
  next
    case (Some d')
    from norm_node_fixed(3) [OF Some] obtain n where "map_of d' k_name = Some (VStr n)"
      and "norm_name py v = Some n" by blast
    with Some Cons.IH show ?thesis by (simp add: trimmed_name_def)
  qed
qed

lemma dedup_fixed_nodes:
  assumes "\<forall>d\<in>set nodes. norm_node py (VDict d) = Some d"
    and "distinct (map trimmed_name nodes)"
  shows "deduplicate_proxies py (map VDict nodes) = nodes"
proof -
  have "dedup_loop py [] (map VDict nodes) = List.map_filter (norm_node py) (map VDict nodes)"
    by (rule dedup_loop_distinct) (simp_all add: fixed_nodes_names [OF assms(1)] assms(2))
  then show ?thesis
    by (simp add: deduplicate_proxies_values fixed_nodes_map_filter [OF assms(1)])
qed

lemma has_str_name_is_text: "has_str_name p \<Longrightarrow> name_is_text p"
  by (auto simp: has_str_name_def name_is_text_def split: option.splits pyval.splits)

lemma normalize_filter_idempotent:
  assumes "distinct (List.map_filter (norm_name py) raw)"
  shows "\<exists>nodes. normalize_filter py raw = Inr nodes
           \<and> nodes = filter (\<lambda>p. \<not> name_matches BLOCKED_REGION_PATTERN p)
                       (List.map_filter (norm_node py) raw)
           \<and> normalize_filter py (map VDict nodes) = Inr nodes"
proof -
  define ns where "ns = List.map_filter (norm_node py) raw"
  define nodes where "nodes = filter (\<lambda>p. \<not> name_matches BLOCKED_REGION_PATTERN p) ns"
  have d: "deduplicate_proxies py raw = ns"
    unfolding deduplicate_proxies_values ns_def
    by (rule dedup_loop_distinct) (simp_all add: assms)
  have fx: "\<forall>d\<in>set ns. norm_node py (VDict d) = Some d"
    unfolding ns_def by (rule map_filter_norm_node_fixed)
  then have tx: "\<forall>p\<in>set ns. name_is_text p"
    by (auto intro: has_str_name_is_text fixed_node_name(2))
  have f1: "filter_blocked_regions ns = Inr nodes"
    by (simp add: filter_blocked_regions_def filter_blocked_text [OF tx] nodes_def)
  have fx': "\<forall>d\<in>set nodes. norm_node py (VDict d) = Some d"
    using fx by (simp add: nodes_def)
  have "distinct (map trimmed_name ns)"
    by (simp add: ns_def map_filter_norm_node_names assms)
  then have dn: "distinct (map trimmed_name nodes)"
    unfolding nodes_def by (rule distinct_map_filter)
  have d2: "deduplicate_proxies py (map VDict nodes) = nodes"
    using fx' dn by (rule dedup_fixed_nodes)
  from fx' have tx': "\<forall>p\<in>set nodes. name_is_text p"
    by (auto intro: has_str_name_is_text fixed_node_name(2))
  have "filter (\<lambda>p. \<not> name_matches BLOCKED_REGION_PATTERN p) nodes = nodes"
    by (simp add: nodes_def)
  then have f2: "filter_blocked_regions nodes = Inr nodes"
    by (simp add: filter_blocked_regions_def filter_blocked_text [OF tx'])
  show ?thesis
    using d f1 d2 f2 by (simp add: normalize_filter_def nodes_def ns_def)
qed

text \<open>
  Where the names, read as the Normalizer reads them (\<^verbatim>\<open>str\<close>, then trimmed), are pairwise
  different, a second pass returns the nodes of the first and the same grouping.
\<close>

lemma grouping_idempotent:
  assumes "distinct (List.map_filter (norm_name py) raw)"
  shows "\<exists>nodes. normalize_filter py raw = Inr nodes
           \<and> normalize_filter py (map VDict nodes) = Inr nodes
           \<and> grouping py (map VDict nodes) = grouping py raw"
proof -
  from normalize_filter_idempotent [OF assms] obtain nodes
    where n1: "normalize_filter py raw = Inr nodes"
      and n2: "normalize_filter py (map VDict nodes) = Inr nodes"
    by blast
  have "grouping py (map VDict nodes) = grouping py raw"
    by (simp add: grouping_def n1 n2)
  with n1 n2 show ?thesis by blast
qed

text \<open>The entries named \<^verbatim>\<open>' JP'\<close>, \<^verbatim>\<open>'JP'\<close>, \<^verbatim>\<open>'JP_1'\<close>.\<close>

lemma name_renamed: "map_of (renamed new old) k_name = Some (VStr (ustr new))"
  by (simp add: renamed_def update_conv')

lemma jp_entries_literal:
  "required_fields_present jp_entries" "names_unique_nonempty jp_entries"
  "no_name_blocked jp_entries"
  by (simp_all add: required_fields_present_def names_unique_nonempty_def no_name_blocked_def
      jp_entries_def dict_of_def mk_node_def keys BLOCKED_REGION_PATTERN_def re_eval)

lemma dedup_jp_entries: "deduplicate_proxies py0 jp_entries = jp_first_pass"
  by (simp add: deduplicate_proxies_def deduplicate_proxies_objs_def dict_of_def jp_entries_def
      jp_first_pass_def mk_node_def renamed_def keys py0_def py_strip_def is_space_def
      str_int_def str_nat.simps Let_def)

lemma dedup_jp_first_pass:
  "deduplicate_proxies py0 (map VDict jp_first_pass)
     = [renamed ''JP'' '' JP'', renamed ''JP_1'' ''JP'', renamed ''JP_1_1'' ''JP_1'']"
  by (simp add: deduplicate_proxies_def deduplicate_proxies_objs_def dict_of_def
      jp_first_pass_def mk_node_def renamed_def keys py0_def py_strip_def is_space_def
      str_int_def str_nat.simps Let_def)

lemma not_blocked_jp:
  "\<not> re_search BLOCKED_REGION_PATTERN (ustr ''JP'')"
  "\<not> re_search BLOCKED_REGION_PATTERN (ustr ''JP_1'')"
  "\<not> re_search BLOCKED_REGION_PATTERN (ustr ''JP_1_1'')"
  by (simp_all add: BLOCKED_REGION_PATTERN_def re_eval)

lemma region_jp:
  "match_region REGION_MAP (VStr (ustr ''JP'')) = Inr (Some L_JAPAN)"
  "match_region REGION_MAP (VStr (ustr ''JP_1'')) = Inr (Some L_JAPAN)"
  "match_region REGION_MAP (VStr (ustr ''JP_1_1'')) = Inr (Some L_JAPAN)"
  by (simp_all add: REGION_MAP_def re_eval)

lemma filter_jp_first_pass: "filter_blocked_regions jp_first_pass = Inr jp_first_pass"
  by (simp add: filter_blocked_regions_def jp_first_pass_def dict_get_def name_renamed
      name_mk_node not_blocked_jp)

lemma filter_jp_second_pass:
  "filter_blocked_regions
       [renamed ''JP'' '' JP'', renamed ''JP_1'' ''JP'', renamed ''JP_1_1'' ''JP_1'']
     = Inr [renamed ''JP'' '' JP'', renamed ''JP_1'' ''JP'', renamed ''JP_1_1'' ''JP_1'']"
  by (simp add: filter_blocked_regions_def dict_get_def name_renamed not_blocked_jp)

lemma classify_jp_first_pass:
  "classify_by_region jp_first_pass
     = Inr [(L_JAPAN, [VStr (ustr ''JP''), VStr (ustr ''JP_1''), VStr (ustr ''JP_1'')])]"
  by (simp add: classify_by_region_def classify_def jp_first_pass_def name_renamed
      name_mk_node region_jp setdefault_append_def)

lemma classify_jp_second_pass:
  "classify_by_region
       [renamed ''JP'' '' JP'', renamed ''JP_1'' ''JP'', renamed ''JP_1_1'' ''JP_1'']
     = Inr [(L_JAPAN, [VStr (ustr ''JP''), VStr (ustr ''JP_1''), VStr (ustr ''JP_1_1'')])]"
  by (simp add: classify_by_region_def classify_def name_renamed region_jp
      setdefault_append_def)

lemma not_blocked_jp_1: "\<not> re_search BLOCKED_REGION_PATTERN (ustr ''JP-1'')"
  by (simp add: BLOCKED_REGION_PATTERN_def re_eval)

lemma dedup_jp_1: "deduplicate_proxies py [VDict (mk_node ''JP-1'')] = [mk_node ''JP-1'']"
  by (simp add: deduplicate_proxies_def deduplicate_proxies_objs_def mk_node_def keys
      py_strip_def is_space_def dict_of_def)

lemma filter_jp_1: "filter_blocked_regions [mk_node ''JP-1''] = Inr [mk_node ''JP-1'']"
proof -
  have "\<forall>p\<in>set [mk_node ''JP-1'']. name_is_text p"
    by (simp add: name_is_text_def name_mk_node)
  from filter_blocked_text [OF this, of BLOCKED_REGION_PATTERN] show ?thesis
    by (simp add: filter_blocked_regions_def name_matches_def dict_get_def name_mk_node
        not_blocked_jp_1)
qed

lemma probe_down: "test_single_proxy py (net_down i) (mk_node s) = Inr (mk_node s, None)"
  by (simp add: test_single_proxy_def mk_node_def dict_get_def keys net_down_def)

lemma probe_jp_1:
  "test_proxies_latency py0 (net_const 10) [0] [mk_node ''JP-1'']
     = Inr [renamed ''[10ms] JP-1'' ''JP-1'']"
  by (simp add: prober_eval round1_100 mark_10)

lemma str_renamed: "has_str_name (renamed new old)"
  by (simp add: has_str_name_def renamed_def update_conv')

subsection \<open>Routing Config Assembler and driver\<close>

lemma all_names_total:
  "\<forall>p\<in>set proxies. has_str_name p \<Longrightarrow>
   all_names proxies = Inr (map (\<lambda>p. VStr (trimmed_name p)) proxies)"
proof (induction proxies)
  case Nil
  then show ?case by simp
next
  case (Cons p ps)
  from Cons.prems obtain s where s: "map_of p k_name = Some (VStr s)"
    by (auto simp: has_str_name_def split: option.splits pyval.splits)
  from Cons show ?case by (simp add: s trimmed_name_def)
qed

lemma region_subgroups_map:
  "region_subgroups regions groups
     = map (\<lambda>r. select_group r (case map_of groups r of Some ms \<Rightarrow> ms | None \<Rightarrow> [REJECT]))
         regions"
  by (induction regions) (auto split: option.splits)

lemma members_or_reject:
  assumes "\<forall>x\<in>set groups. snd x \<noteq> []"
  shows "(case map_of groups r of Some ms \<Rightarrow> ms | None \<Rightarrow> [REJECT])
           = (if members groups r = [] then [REJECT] else members groups r)"
proof (cases "map_of groups r")
  case None
  then show ?thesis by (simp add: members_def)
next
  case (Some ms)
  then have "(r, ms) \<in> set groups" by (rule map_of_SomeD)
  with assms have "ms \<noteq> []" by auto
  with Some show ?thesis by (simp add: members_def)
qed

lemma classify_nonempty:
  "classify cat proxies = Inr groups \<Longrightarrow> \<forall>x\<in>set groups. snd x \<noteq> []"
  using classify_loop_nonempty [of cat "[]" proxies groups] by (simp add: classify_def)

lemma length_fixed_groups: "length (fixed_groups names) = 9"
  by (simp add: fixed_groups_def)

lemma all_region_names:
  "ALL_REGION_NAMES = [L_JAPAN, L_USA, L_SINGAPORE, L_KOREA, L_UK, L_GERMANY, L_FRANCE,
     L_RUSSIA, L_CANADA, L_AUSTRALIA, L_INDIA, L_BRAZIL]"
  by (simp add: ALL_REGION_NAMES_def REGION_MAP_def)

lemma distinct_all_region_names: "distinct ALL_REGION_NAMES"
  by (simp add: all_region_names labels)

lemma build_config_total:
  "\<forall>p\<in>set proxies. has_str_name p \<Longrightarrow> \<exists>cfg. build_config rules proxies = Inr cfg"
  using classify_total [of proxies REGION_MAP]
  by (auto simp: build_config_def build_config_with_def all_names_total)

lemma classify_jp_1:
  "classify_by_region [mk_node ''JP-1''] = Inr [(L_JAPAN, [VStr (ustr ''JP-1'')])]"
  by (simp add: classify_by_region_def classify_def name_mk_node region_jp_1
      setdefault_append_def)

lemma probes_all_fail:
  assumes "set order \<subseteq> {..<length proxies}"
    and "\<forall>i<length proxies. \<exists>p. test_single_proxy py (net i) (proxies ! i) = Inr (p, None)"
  shows "test_proxies_latency py net order proxies = Inr []"
proof -
  have "\<exists>p. submit_all_objs py net proxies [0..<length proxies] ! i = Inr (p, None)"
    if "i \<in> set order" for i
  proof -
    from that assms(1) have i: "i < length proxies" by auto
    with assms(2) obtain p where "test_single_proxy py (net i) (proxies ! i) = Inr (p, None)"
      by blast
    with i show ?thesis by (simp add: submit_all_objs_nth)
  qed
  then have "\<forall>r\<in>set (as_completed order (submit_all_objs py net proxies [0..<length proxies])).
               \<exists>p. r = Inr (p, None)"
    by (auto simp: as_completed_def)
  then have "collect_alive (as_completed order (submit_all_objs py net proxies [0..<length proxies]))
               = Inr []"
    by (rule collect_alive_none)
  then show ?thesis
    by (simp add: test_proxies_latency_def test_proxies_latency_objs_def ranked_alive_objs_def)
qed

lemma build_config_proxies: "build_config rules proxies = Inr cfg \<Longrightarrow> cfg_proxies cfg = proxies"
  by (auto simp: build_config_def build_config_with_def split: sum.splits)
section \<open>The claims\<close>

text \<open>
  C1. The Normalizer's output has no two nodes with equal name, also when the input
  already holds a name of the suffixed form. The code breaks this: for the input names
  \<^verbatim>\<open>A\<close>, \<^verbatim>\<open>A\<close>, \<^verbatim>\<open>A_1\<close> the second \<^verbatim>\<open>A\<close> is renamed \<^verbatim>\<open>A_1\<close>, and the third entry, whose
  own name \<^verbatim>\<open>A_1\<close> was never seen before, keeps it: the output names are
  \<^verbatim>\<open>A\<close>, \<^verbatim>\<open>A_1\<close>, \<^verbatim>\<open>A_1\<close>.
\<close>

theorem dedup_suffix_collision:
  "names_of (deduplicate_proxies py0 [VDict (mk_node ''A''), VDict (mk_node ''A''), VDict (mk_node ''A_1'')])
     = [Some (VStr (ustr ''A'')), Some (VStr (ustr ''A_1'')), Some (VStr (ustr ''A_1''))]
   \<and> \<not> distinct (names_of (deduplicate_proxies py0
         [VDict (mk_node ''A''), VDict (mk_node ''A''), VDict (mk_node ''A_1'')]))"
  by (simp add: deduplicate_proxies_def deduplicate_proxies_objs_def dict_of_def names_of_def
      mk_node_def py0_def k_name_def k_type_def k_server_def k_port_def ustr_def py_strip_def
      is_space_def str_int_def str_nat.simps Let_def)

text \<open>
  C2. The Prober's result is ordered ascending by latency, and two surviving nodes with
  equal latency keep the relative order of the input list whatever the order in which the
  probes complete. The second half fails: \<^verbatim>\<open>alive_proxies\<close> is filled in the order in which
  \<^verbatim>\<open>as_completed\<close> yields the tasks and is then sorted stably, so a tie keeps the order of
  the yield, which the input order does not determine. As amended, for the node list given
  by \<open>objs\<close> and \<open>refs\<close> and the tasks yielded in the order \<open>order\<close>: the result lists the
  objects of \<open>alive\<close>, of which the Prober has changed nothing but the name; \<open>alive\<close> is
  ordered ascending by latency, holds exactly the entries of the input whose probe
  returned a latency, each with that latency, and lists the entries of any one latency in the order in which
  their tasks were yielded. (The Prober returns whenever every node has a name and no
  probe raises: lemma \<open>test_proxies_latency_objs_total\<close>.)
\<close>

theorem prober_ranking:
  assumes "valid_order order (length refs)"
    and "test_proxies_latency_objs py net order objs refs = Inr (objs', result)"
  shows "\<exists>alive. ranked_alive_objs py net order objs refs = Inr alive
           \<and> result = map fst alive
           \<and> length objs' = length objs
           \<and> (\<forall>r key. key \<noteq> k_name \<longrightarrow> map_of (objs' ! r) key = map_of (objs ! r) key)
           \<and> sorted (map snd alive)
           \<and> mset alive = mset (survivors (submit_all_objs py net objs refs))
           \<and> (\<forall>r l. (r, l) \<in> set alive \<longleftrightarrow>
                  (\<exists>i<length refs. refs ! i = r
                     \<and> (\<exists>p. test_single_proxy py (net i) (objs ! r) = Inr (p, Some l))))
           \<and> (\<forall>k. filter (\<lambda>x. snd x = k) alive
                  = filter (\<lambda>x. snd x = k)
                      (survivors (as_completed order (submit_all_objs py net objs refs))))"
proof -
  from assms(2) obtain alive where r: "ranked_alive_objs py net order objs refs = Inr alive"
    and m: "add_latency_marks_objs py objs alive = Inr (objs', result)"
    by (auto simp: test_proxies_latency_objs_def split: sum.splits)
  show ?thesis
  proof (intro exI [of _ alive] conjI allI impI)
    show "ranked_alive_objs py net order objs refs = Inr alive" by (rule r)
    show "result = map fst alive" using add_latency_marks_objs_result [OF m] by simp
    show "length objs' = length objs" using add_latency_marks_objs_result [OF m] by simp
    show "map_of (objs' ! r) key = map_of (objs ! r) key" if "key \<noteq> k_name" for r key
      using m that by (rule add_latency_marks_objs_other_keys)
    show "sorted (map snd alive)" by (rule ranked_alive_sorted(1) [OF r])
    show "mset alive = mset (survivors (submit_all_objs py net objs refs))"
      by (rule mset_ranked_alive [OF assms(1) r])
    show "(r, l) \<in> set alive \<longleftrightarrow>
            (\<exists>i<length refs. refs ! i = r
               \<and> (\<exists>p. test_single_proxy py (net i) (objs ! r) = Inr (p, Some l)))" for r l
      by (rule alive_iff_probe [OF assms(1) r])
    show "filter (\<lambda>x. snd x = k) alive
            = filter (\<lambda>x. snd x = k)
                (survivors (as_completed order (submit_all_objs py net objs refs)))" for k
      by (rule ranked_alive_sorted(2) [OF r])
  qed
qed

text \<open>
  The three nodes of the end-to-end scenario with the latencies 50, 200 and 10 ms, the
  tasks yielded in the order 2, 0, 1.
\<close>

theorem prober_ranking_witness:
  "valid_order [Suc (Suc 0), 0, Suc 0] (length [0, Suc 0, Suc (Suc 0)])
   \<and> test_proxies_latency_objs py0 (net_by_task [50, 200, 10]) [Suc (Suc 0), 0, Suc 0]
       [mk_node ''A'', mk_node ''A_1'', mk_node ''JP-node''] [0, Suc 0, Suc (Suc 0)]
     = Inr ([renamed ''[50ms] A'' ''A'', renamed ''[200ms] A_1'' ''A_1'',
             renamed ''[10ms] JP-node'' ''JP-node''],
            [Suc (Suc 0), 0, Suc 0])
   \<and> (\<exists>alive. ranked_alive_objs py0 (net_by_task [50, 200, 10]) [Suc (Suc 0), 0, Suc 0]
                  [mk_node ''A'', mk_node ''A_1'', mk_node ''JP-node''] [0, Suc 0, Suc (Suc 0)]
                = Inr alive
          \<and> [Suc (Suc 0), 0, Suc 0] = map fst alive
          \<and> sorted (map snd alive))"
proof -
  have v: "valid_order [Suc (Suc 0), 0, Suc 0] (length [0, Suc 0, Suc (Suc 0)])"
    by (auto simp: valid_order_def)
  have h: "test_proxies_latency_objs py0 (net_by_task [50, 200, 10]) [Suc (Suc 0), 0, Suc 0]
       [mk_node ''A'', mk_node ''A_1'', mk_node ''JP-node''] [0, Suc 0, Suc (Suc 0)]
     = Inr ([renamed ''[50ms] A'' ''A'', renamed ''[200ms] A_1'' ''A_1'',
             renamed ''[10ms] JP-node'' ''JP-node''],
            [Suc (Suc 0), 0, Suc 0])"
    by (simp add: test_proxies_latency_objs_def ranked_alive_objs_def as_completed_def
        submit_all_objs_def probe_mk_node net_by_task_def round1_def round_half_even_def
        name_mk_node latency_mark_def int_of_tenths_def str_int_def str_nat.simps renamed_def
        ustr_def)
  show ?thesis
    using prober_ranking [OF v h] v h
    by - (elim exE conjE, intro conjI exI, assumption+)
qed

text \<open>
  Two nodes \<^verbatim>\<open>A\<close>, \<^verbatim>\<open>B\<close> in this input order, both with latency 10 ms: when the task of
  \<^verbatim>\<open>B\<close> is yielded first, \<^verbatim>\<open>B\<close> is ranked before \<^verbatim>\<open>A\<close>.
\<close>

theorem prober_tie_counterexample:
  "valid_order [Suc 0, 0] (length [mk_node ''A'', mk_node ''B''])
   \<and> test_proxies_latency py0 (net_const 10) [Suc 0, 0] [mk_node ''A'', mk_node ''B'']
       = Inr [renamed ''[10ms] B'' ''B'', renamed ''[10ms] A'' ''A'']
   \<and> test_proxies_latency py0 (net_const 10) [0, Suc 0] [mk_node ''A'', mk_node ''B'']
       = Inr [renamed ''[10ms] A'' ''A'', renamed ''[10ms] B'' ''B'']
   \<and> renamed ''[10ms] B'' ''B'' \<noteq> renamed ''[10ms] A'' ''A''"
proof -
  have "renamed ''[10ms] B'' ''B'' \<noteq> renamed ''[10ms] A'' ''A''"
    by (simp add: renamed_def mk_node_def keys)
  then show ?thesis
    by (auto simp: tie_reversed tie_input_order valid_order_def)
qed

text \<open>
  C3. The mapping the Classifier returns lists its labels in the order of the catalog,
  not in the order in which the regions are first met, and holds exactly the labels with
  a member. The order fails: the \<^verbatim>\<open>OrderedDict\<close> gets a label when the first node of that
  region is met. As amended, for nodes whose names are strings: the labels are listed in
  the order in which the regions are first met among the nodes, no label twice, a label is
  listed exactly when it has a member, and the members of a label are the names of its
  nodes in input order.
\<close>

theorem classifier_label_order:
  assumes "\<forall>p\<in>set proxies. has_str_name p"
  shows "\<exists>groups. classify cat proxies = Inr groups
           \<and> map fst groups = first_seen (map fst (matched cat proxies))
           \<and> distinct (map fst groups)
           \<and> (\<forall>r. r \<in> set (map fst groups) \<longleftrightarrow> members groups r \<noteq> [])
           \<and> (\<forall>r. members groups r = map snd (filter (\<lambda>x. fst x = r) (matched cat proxies)))"
proof -
  from classify_total [OF assms] obtain groups where g: "classify cat proxies = Inr groups"
    by blast
  from g classify_keys [OF g] show ?thesis by blast
qed

theorem classifier_label_order_witness:
  "\<exists>groups. classify REGION_MAP [mk_node ''US-1'', mk_node ''JP-1''] = Inr groups
      \<and> map fst groups = [L_USA, L_JAPAN]
      \<and> members groups L_USA = [VStr (ustr ''US-1'')]"
proof -
  have h: "\<forall>p\<in>set [mk_node ''US-1'', mk_node ''JP-1'']. has_str_name p"
    by (simp add: str_mk_node)
  have m: "matched REGION_MAP [mk_node ''US-1'', mk_node ''JP-1'']
             = [(L_USA, VStr (ustr ''US-1'')), (L_JAPAN, VStr (ustr ''JP-1''))]"
    by (simp add: matched_def matched_node_def name_mk_node region_us_1 region_jp_1)
  have ne: "L_JAPAN \<noteq> L_USA" by (simp add: labels)
  from classifier_label_order [OF h, of REGION_MAP] obtain groups
    where "classify REGION_MAP [mk_node ''US-1'', mk_node ''JP-1''] = Inr groups"
      and "map fst groups = first_seen (map fst (matched REGION_MAP [mk_node ''US-1'', mk_node ''JP-1'']))"
      and "\<forall>r. members groups r
             = map snd (filter (\<lambda>x. fst x = r) (matched REGION_MAP [mk_node ''US-1'', mk_node ''JP-1'']))"
    by blast
  with m ne show ?thesis by (intro exI [of _ groups]) simp
qed

text \<open>
  A node of the United States before a node of Japan: the result lists the label of the
  United States first, while the catalog has Japan first.
\<close>

theorem classifier_not_catalog_order:
  "classify_by_region [mk_node ''US-1'', mk_node ''JP-1'']
     = Inr [(L_USA, [VStr (ustr ''US-1'')]), (L_JAPAN, [VStr (ustr ''JP-1'')])]
   \<and> \<not> in_catalog_order REGION_MAP
         [(L_USA, [VStr (ustr ''US-1'')]), (L_JAPAN, [VStr (ustr ''JP-1'')])]"
  by (simp add: classify_us_jp in_catalog_order_def REGION_MAP_def labels)

text \<open>
  C4. For every catalog of (pattern, label) pairs, the Classifier puts a node under the
  label of the first pattern, in catalog order, that matches its name, and under no other
  label; a node that matches no pattern is in no group; a node named \<^verbatim>\<open>JP-Tokyo\<close> is put
  under the label of Japan. For nodes whose names are strings the Classifier returns, and
  the name of a node is a member of the group of a label exactly when that label belongs to
  the first matching pattern; the members of a label are the names of its nodes, once for
  each node, in input order.
\<close>

theorem classifier_first_match:
  assumes "\<forall>p\<in>set proxies. has_str_name p"
  shows "(\<exists>groups. classify cat proxies = Inr groups
           \<and> (\<forall>p\<in>set proxies. \<forall>s r. map_of p k_name = Some (VStr s) \<longrightarrow>
                 (VStr s \<in> set (members groups r) \<longleftrightarrow>
                    (\<exists>i<length cat. re_search (fst (cat ! i)) s \<and> snd (cat ! i) = r
                        \<and> (\<forall>j<i. \<not> re_search (fst (cat ! j)) s))))
           \<and> (\<forall>p\<in>set proxies. \<forall>s. map_of p k_name = Some (VStr s) \<longrightarrow>
                 (\<forall>i<length cat. \<not> re_search (fst (cat ! i)) s) \<longrightarrow>
                 (\<forall>r. VStr s \<notin> set (members groups r)))
           \<and> (\<forall>r. members groups r
                  = map snd (filter (\<lambda>x. fst x = r) (matched cat proxies))))
       \<and> classify_by_region [mk_node ''JP-Tokyo''] = Inr [(L_JAPAN, [VStr (ustr ''JP-Tokyo'')])]"
proof
  from classify_total [OF assms] obtain groups where g: "classify cat proxies = Inr groups"
    by blast
  have "VStr s \<in> set (members groups r) \<longleftrightarrow>
          (\<exists>i<length cat. re_search (fst (cat ! i)) s \<and> snd (cat ! i) = r
              \<and> (\<forall>j<i. \<not> re_search (fst (cat ! j)) s))"
    if p: "p \<in> set proxies" and s: "map_of p k_name = Some (VStr s)" for p s r
  proof -
    have "VStr s \<in> set (members groups r) \<longleftrightarrow> (r, VStr s) \<in> set (matched cat proxies)"
      by (force simp: classify_keys(4) [OF g])
    also have "\<dots> \<longleftrightarrow> match_region cat (VStr s) = Inr (Some r)"
      using p s by (auto simp: set_matched)
    finally show ?thesis by (simp add: match_region_first)
  qed
  then have first: "\<forall>p\<in>set proxies. \<forall>s r. map_of p k_name = Some (VStr s) \<longrightarrow>
                 (VStr s \<in> set (members groups r) \<longleftrightarrow>
                    (\<exists>i<length cat. re_search (fst (cat ! i)) s \<and> snd (cat ! i) = r
                        \<and> (\<forall>j<i. \<not> re_search (fst (cat ! j)) s)))"
    by blast
  then have none: "\<forall>p\<in>set proxies. \<forall>s. map_of p k_name = Some (VStr s) \<longrightarrow>
                 (\<forall>i<length cat. \<not> re_search (fst (cat ! i)) s) \<longrightarrow>
                 (\<forall>r. VStr s \<notin> set (members groups r))"
    by blast
  from g first none show "\<exists>groups. classify cat proxies = Inr groups
           \<and> (\<forall>p\<in>set proxies. \<forall>s r. map_of p k_name = Some (VStr s) \<longrightarrow>
                 (VStr s \<in> set (members groups r) \<longleftrightarrow>
                    (\<exists>i<length cat. re_search (fst (cat ! i)) s \<and> snd (cat ! i) = r
                        \<and> (\<forall>j<i. \<not> re_search (fst (cat ! j)) s))))
           \<and> (\<forall>p\<in>set proxies. \<forall>s. map_of p k_name = Some (VStr s) \<longrightarrow>
                 (\<forall>i<length cat. \<not> re_search (fst (cat ! i)) s) \<longrightarrow>
                 (\<forall>r. VStr s \<notin> set (members groups r)))
           \<and> (\<forall>r. members groups r
                  = map snd (filter (\<lambda>x. fst x = r) (matched cat proxies)))"
    using classify_keys(4) [OF g] by blast
next
  show "classify_by_region [mk_node ''JP-Tokyo''] = Inr [(L_JAPAN, [VStr (ustr ''JP-Tokyo'')])]"
    by (simp add: classify_by_region_def classify_def name_mk_node region_jp_tokyo
        setdefault_append_def)
qed

text \<open>
  \<^verbatim>\<open>JP-US\<close> matches the pattern of Japan and the later pattern of the United States;
  \<^verbatim>\<open>relay-7\<close> matches no pattern.
\<close>

theorem classifier_first_match_witness:
  "\<exists>groups. classify REGION_MAP [mk_node ''JP-US'', mk_node ''relay-7''] = Inr groups
      \<and> re_search (fst (REGION_MAP ! 1)) (ustr ''JP-US'')
      \<and> VStr (ustr ''JP-US'') \<in> set (members groups L_JAPAN)
      \<and> VStr (ustr ''JP-US'') \<notin> set (members groups L_USA)
      \<and> (\<forall>r. VStr (ustr ''relay-7'') \<notin> set (members groups r))"
proof -
  have h: "\<forall>p\<in>set [mk_node ''JP-US'', mk_node ''relay-7'']. has_str_name p"
    by (simp add: str_mk_node)
  have ne: "L_JAPAN \<noteq> L_USA" by (simp add: labels)
  from classifier_first_match [OF h, of REGION_MAP] obtain groups
    where g: "classify REGION_MAP [mk_node ''JP-US'', mk_node ''relay-7''] = Inr groups"
      and c: "\<forall>p\<in>set [mk_node ''JP-US'', mk_node ''relay-7'']. \<forall>s r.
                map_of p k_name = Some (VStr s) \<longrightarrow>
                  (VStr s \<in> set (members groups r) \<longleftrightarrow>
                     (\<exists>i<length REGION_MAP. re_search (fst (REGION_MAP ! i)) s
                         \<and> snd (REGION_MAP ! i) = r
                         \<and> (\<forall>j<i. \<not> re_search (fst (REGION_MAP ! j)) s)))"
    by blast
  have c': "VStr s \<in> set (members groups r) \<longleftrightarrow> match_region REGION_MAP (VStr s) = Inr (Some r)"
    if "s = ustr ''JP-US'' \<or> s = ustr ''relay-7''" for s r
    using c that by (auto simp: match_region_first name_mk_node)
  have "VStr (ustr ''JP-US'') \<in> set (members groups L_JAPAN)"
    by (simp add: c' region_jp_us)
  moreover have "VStr (ustr ''JP-US'') \<notin> set (members groups L_USA)"
    using ne by (simp add: c' region_jp_us)
  moreover have "\<forall>r. VStr (ustr ''relay-7'') \<notin> set (members groups r)"
    by (simp add: c' region_plain)
  ultimately show ?thesis using g us_matches_later by blast
qed

text \<open>
  C5. The Prober prefixes the name of every surviving node with its latency rounded to
  the nearest whole millisecond, after the ranking and only for surviving nodes. The
  rounding fails: the mark is \<^verbatim>\<open>int(latency)\<close>, which truncates, so 123.6 ms gives
  \<^verbatim>\<open>[123ms]\<close>. As amended, for a node list in which no dictionary is listed twice and
  for measured times that are not negative: the result lists the surviving nodes as
  ranked; the name of each is replaced by \<^verbatim>\<open>[\<close>, a decimal numeral without leading zero,
  \<^verbatim>\<open>ms] \<close> and the old name; the numeral denotes the whole milliseconds of the node's
  latency, that is the largest whole number not above it; the latency is the time
  measured for the node's own server and port, rounded to the nearest tenth of a
  millisecond (a tie to the even tenth); and no other node is changed. The latency \<open>l\<close> is
  counted in tenths. (A dictionary that is listed twice is renamed once for each
  surviving entry: lemma \<open>shared_node_marks_stack\<close>.)
\<close>

theorem prober_latency_mark:
  assumes "valid_order order (length refs)"
    and "distinct refs"
    and "\<forall>r\<in>set refs. r < length objs"
    and "\<forall>i server port x. net i server port = Connected x \<longrightarrow> 0 \<le> x"
    and "test_proxies_latency_objs py net order objs refs = Inr (objs', result)"
  shows "\<exists>alive. ranked_alive_objs py net order objs refs = Inr alive
           \<and> result = map fst alive
           \<and> length objs' = length objs
           \<and> (\<forall>r. r \<notin> set result \<longrightarrow> objs' ! r = objs ! r)
           \<and> (\<forall>(r, l)\<in>set alive. \<exists>nm ds.
                 map_of (objs ! r) k_name = Some nm
               \<and> objs' ! r
                   = AList.update k_name (VStr (ustr ''['' @ ds @ ustr ''ms] '' @ py_str py nm))
                       (objs ! r)
               \<and> is_digits ds \<and> (hd ds = 48 \<longrightarrow> ds = [48])
               \<and> 10 * int (digits_value ds) \<le> l \<and> l < 10 * int (digits_value ds) + 10
               \<and> (\<exists>i<length refs. \<exists>port x.
                     refs ! i = r
                   \<and> py_int py (dict_get (objs ! r) k_port (VInt 0)) = Inr port
                   \<and> net i (dict_get (objs ! r) k_server (VStr [])) port = Connected x
                   \<and> \<bar>x * 10 - of_int l\<bar> \<le> 1 / 2
                   \<and> (\<bar>x * 10 - of_int l\<bar> = 1 / 2 \<longrightarrow> even l)))"
proof -
  from assms(5) obtain alive where r: "ranked_alive_objs py net order objs refs = Inr alive"
    and m: "add_latency_marks_objs py objs alive = Inr (objs', result)"
    by (auto simp: test_proxies_latency_objs_def split: sum.splits)
  from add_latency_marks_objs_result [OF m]
  have res: "result = map fst alive" and len: "length objs' = length objs" by simp_all
  have frame: "\<forall>r. r \<notin> set result \<longrightarrow> objs' ! r = objs ! r"
    using add_latency_marks_objs_frame [OF m] by (simp add: res)
  have d: "distinct (map fst alive)"
    using assms(1,2) r by (rule distinct_ranked_alive)
  have task: "\<exists>i<length refs. refs ! i = r
                \<and> test_single_proxy py (net i) (objs ! r) = Inr (objs ! r, Some l)"
    if "(r, l) \<in> set alive" for r l
  proof -
    from that
    have "(r, l) \<in> set (survivors (as_completed order (submit_all_objs py net objs refs)))"
      using ranked_alive_sorted(3) [OF r] by (metis set_mset_mset)
    from survivors_from_tasks [OF assms(1) this] show ?thesis .
  qed
  have b: "\<forall>pl\<in>set alive. fst pl < length objs"
  proof
    fix pl
    assume pl: "pl \<in> set alive"
    obtain r l where "pl = (r, l)" by (cases pl)
    with pl task [of r l] assms(3) show "fst pl < length objs" by auto
  qed
  have "\<exists>nm ds.
          map_of (objs ! r) k_name = Some nm
        \<and> objs' ! r
            = AList.update k_name (VStr (ustr ''['' @ ds @ ustr ''ms] '' @ py_str py nm))
                (objs ! r)
        \<and> is_digits ds \<and> (hd ds = 48 \<longrightarrow> ds = [48])
        \<and> 10 * int (digits_value ds) \<le> l \<and> l < 10 * int (digits_value ds) + 10
        \<and> (\<exists>i<length refs. \<exists>port x.
              refs ! i = r
            \<and> py_int py (dict_get (objs ! r) k_port (VInt 0)) = Inr port
            \<and> net i (dict_get (objs ! r) k_server (VStr [])) port = Connected x
            \<and> \<bar>x * 10 - of_int l\<bar> \<le> 1 / 2
            \<and> (\<bar>x * 10 - of_int l\<bar> = 1 / 2 \<longrightarrow> even l))"
    if mem: "(r, l) \<in> set alive" for r l
  proof -
    from task [OF mem] obtain i where i: "i < length refs" and ri: "refs ! i = r"
      and t: "test_single_proxy py (net i) (objs ! r) = Inr (objs ! r, Some l)" by blast
    from test_single_proxy_Some [OF t] obtain port x
      where p: "py_int py (dict_get (objs ! r) k_port (VInt 0)) = Inr port"
        and c: "net i (dict_get (objs ! r) k_server (VStr [])) port = Connected x"
        and l: "l = round1 x" by blast
    from assms(4) c have "0 \<le> x" by blast
    then have "0 \<le> x * 10" by simp
    then have l0: "0 \<le> l" unfolding l round1_def by (rule round_half_even_nearest(3))
    have n1: "\<bar>x * 10 - of_int l\<bar> \<le> 1 / 2"
      unfolding l round1_def by (rule round_half_even_nearest(1))
    have n2: "\<bar>x * 10 - of_int l\<bar> = 1 / 2 \<longrightarrow> even l"
      unfolding l round1_def using round_half_even_nearest(2) [of "x * 10"] by blast
    from add_latency_marks_objs_marks [OF d b m mem] obtain nm
      where nm: "map_of (objs ! r) k_name = Some nm"
        and o: "objs' ! r = AList.update k_name (VStr (latency_mark py l nm)) (objs ! r)"
      by blast
    from latency_mark_whole_ms [OF l0, of py nm] obtain ds
      where "latency_mark py l nm = ustr ''['' @ ds @ ustr ''ms] '' @ py_str py nm"
        and "is_digits ds" and "hd ds = 48 \<longrightarrow> ds = [48]"
        and "10 * int (digits_value ds) \<le> l" and "l < 10 * int (digits_value ds) + 10"
      by blast
    with nm o i ri p c n1 n2 show ?thesis by (intro exI conjI) auto
  qed
  then have "\<forall>(r, l)\<in>set alive. \<exists>nm ds.
          map_of (objs ! r) k_name = Some nm
        \<and> objs' ! r
            = AList.update k_name (VStr (ustr ''['' @ ds @ ustr ''ms] '' @ py_str py nm))
                (objs ! r)
        \<and> is_digits ds \<and> (hd ds = 48 \<longrightarrow> ds = [48])
        \<and> 10 * int (digits_value ds) \<le> l \<and> l < 10 * int (digits_value ds) + 10
        \<and> (\<exists>i<length refs. \<exists>port x.
              refs ! i = r
            \<and> py_int py (dict_get (objs ! r) k_port (VInt 0)) = Inr port
            \<and> net i (dict_get (objs ! r) k_server (VStr [])) port = Connected x
            \<and> \<bar>x * 10 - of_int l\<bar> \<le> 1 / 2
            \<and> (\<bar>x * 10 - of_int l\<bar> = 1 / 2 \<longrightarrow> even l))"
    by blast
  with r res len frame show ?thesis by blast
qed

text \<open>
  \<^verbatim>\<open>Tokyo-1\<close> with 123.6 ms: the latency is 1236 tenths, the numeral denotes 123 and the
  node becomes \<^verbatim>\<open>[123ms] Tokyo-1\<close>.
\<close>

theorem prober_latency_mark_witness:
  "valid_order [0] (length [0::nat])
   \<and> distinct [0::nat]
   \<and> test_proxies_latency_objs py0 (net_const (1236 / 10)) [0] [mk_node ''Tokyo-1''] [0]
       = Inr ([renamed ''[123ms] Tokyo-1'' ''Tokyo-1''], [0])
   \<and> (\<exists>alive nm ds.
         ranked_alive_objs py0 (net_const (1236 / 10)) [0] [mk_node ''Tokyo-1''] [0] = Inr alive
       \<and> alive = [(0, 1236)]
       \<and> map_of (mk_node ''Tokyo-1'') k_name = Some nm
       \<and> renamed ''[123ms] Tokyo-1'' ''Tokyo-1''
           = AList.update k_name (VStr (ustr ''['' @ ds @ ustr ''ms] '' @ py_str py0 nm))
               (mk_node ''Tokyo-1'')
       \<and> is_digits ds \<and> digits_value ds = 123)"
proof -
  have v: "valid_order [0] (length [0::nat])"
    by (auto simp: valid_order_def)
  have d: "distinct [0::nat]" by simp
  have b: "\<forall>r\<in>set [0]. r < length [mk_node ''Tokyo-1'']" by simp
  have n: "\<forall>i server port x. net_const (1236 / 10) i server port = Connected x \<longrightarrow> 0 \<le> x"
    by (simp add: net_const_def)
  have a: "ranked_alive_objs py0 (net_const (1236 / 10)) [0] [mk_node ''Tokyo-1''] [0]
             = Inr [(0, 1236)]"
    by (simp add: ranked_alive_objs_def as_completed_def submit_all_objs_def probe_const
        round1_1236)
  have h: "test_proxies_latency_objs py0 (net_const (1236 / 10)) [0] [mk_node ''Tokyo-1''] [0]
       = Inr ([renamed ''[123ms] Tokyo-1'' ''Tokyo-1''], [0])"
    by (simp add: test_proxies_latency_objs_def ranked_alive_objs_def as_completed_def
        submit_all_objs_def probe_const round1_1236 name_mk_node mark_1236 renamed_def)
  from prober_latency_mark [OF v d b n h] obtain alive
    where 1: "ranked_alive_objs py0 (net_const (1236 / 10)) [0] [mk_node ''Tokyo-1''] [0]
                = Inr alive"
      and 2: "\<forall>(r, l)\<in>set alive. \<exists>nm ds.
                 map_of ([mk_node ''Tokyo-1''] ! r) k_name = Some nm
               \<and> [renamed ''[123ms] Tokyo-1'' ''Tokyo-1''] ! r
                   = AList.update k_name (VStr (ustr ''['' @ ds @ ustr ''ms] '' @ py_str py0 nm))
                       ([mk_node ''Tokyo-1''] ! r)
               \<and> is_digits ds \<and> (hd ds = 48 \<longrightarrow> ds = [48])
               \<and> 10 * int (digits_value ds) \<le> l \<and> l < 10 * int (digits_value ds) + 10
               \<and> (\<exists>i<length [0::nat]. \<exists>port x.
                     [0] ! i = r
                   \<and> py_int py0 (dict_get ([mk_node ''Tokyo-1''] ! r) k_port (VInt 0)) = Inr port
                   \<and> net_const (1236 / 10) i (dict_get ([mk_node ''Tokyo-1''] ! r) k_server (VStr []))
                        port = Connected x
                   \<and> \<bar>x * 10 - of_int l\<bar> \<le> 1 / 2
                   \<and> (\<bar>x * 10 - of_int l\<bar> = 1 / 2 \<longrightarrow> even l))"
    by (elim exE conjE)
  from 1 a have al: "alive = [(0, 1236)]" by simp
  from 2 obtain nm ds where nm: "map_of (mk_node ''Tokyo-1'') k_name = Some nm"
    and re: "renamed ''[123ms] Tokyo-1'' ''Tokyo-1''
           = AList.update k_name (VStr (ustr ''['' @ ds @ ustr ''ms] '' @ py_str py0 nm))
               (mk_node ''Tokyo-1'')"
    and ds: "is_digits ds"
    and lo: "10 * int (digits_value ds) \<le> 1236" and hi: "1236 < 10 * int (digits_value ds) + 10"
    unfolding al by auto
  from lo hi have dv: "digits_value ds = 123" by presburger
  from v d h 1 al nm re ds dv show ?thesis by (intro conjI exI) assumption+
qed

text \<open>\<^verbatim>\<open>Tokyo-1\<close> with 123.6 ms becomes \<^verbatim>\<open>[123ms] Tokyo-1\<close>, not \<^verbatim>\<open>[124ms] Tokyo-1\<close>.\<close>

theorem prober_truncates_counterexample:
  "test_proxies_latency py0 (net_const (1236 / 10)) [0] [mk_node ''Tokyo-1'']
     = Inr [renamed ''[123ms] Tokyo-1'' ''Tokyo-1'']
   \<and> test_proxies_latency py0 (net_const (1236 / 10)) [0] [mk_node ''Tokyo-1'']
     \<noteq> Inr [renamed ''[124ms] Tokyo-1'' ''Tokyo-1'']"
  unfolding tokyo_1236 using renamed_neq by simp

text \<open>
  C6. Every node the Region Filter returns has a name that does not match the blocked
  pattern, every node it removes has a name that matches, and the surviving nodes keep
  their relative order. For nodes whose names are strings (or absent, then the empty
  string is searched) the filter returns exactly the sublist of the nodes whose names do
  not match.
\<close>

theorem region_filter_spec:
  assumes "\<forall>p\<in>set proxies. name_is_text p"
  shows "\<exists>result. filter_blocked_regions proxies = Inr result
           \<and> result = filter (\<lambda>p. \<not> name_matches BLOCKED_REGION_PATTERN p) proxies
           \<and> (\<forall>p\<in>set result. \<not> name_matches BLOCKED_REGION_PATTERN p)
           \<and> (\<forall>p\<in>set proxies. p \<notin> set result \<longrightarrow> name_matches BLOCKED_REGION_PATTERN p)
           \<and> subseq result proxies"
  using filter_blocked_text [OF assms, of BLOCKED_REGION_PATTERN]
  by (auto simp: filter_blocked_regions_def)

theorem region_filter_spec_witness:
  "filter_blocked_regions [mk_node ''CN-node'', mk_node ''JP-node''] = Inr [mk_node ''JP-node'']"
proof -
  have h: "\<forall>p\<in>set [mk_node ''CN-node'', mk_node ''JP-node'']. name_is_text p"
    by (simp add: name_is_text_def name_mk_node)
  have m1: "name_matches BLOCKED_REGION_PATTERN (mk_node ''CN-node'')"
    by (simp add: name_matches_def dict_get_def name_mk_node blocked_cn_node)
  have m2: "\<not> name_matches BLOCKED_REGION_PATTERN (mk_node ''JP-node'')"
    by (simp add: name_matches_def dict_get_def name_mk_node not_blocked_jp_node)
  from region_filter_spec [OF h] m1 m2 show ?thesis by simp
qed

text \<open>
  C7. The Assembler emits one region selection group per label of the fixed catalog, in
  catalog order: a label with members gets a group that lists those names, a label with
  no members a group whose proxies are exactly \<^verbatim>\<open>["REJECT"]\<close>. For nodes whose names are
  strings \<^verbatim>\<open>build_config\<close> returns a configuration; its groups after the first ten are the
  twelve region groups, named by the labels of the catalog in catalog order, no label
  twice, and the members of a label are the names of the nodes the Classifier puts under
  it.
\<close>

theorem assembler_region_groups:
  assumes "\<forall>p\<in>set proxies. has_str_name p"
  shows "\<exists>cfg groups. build_config rules proxies = Inr cfg
           \<and> classify_by_region proxies = Inr groups
           \<and> length (cfg_proxy_groups cfg) = 10 + length ALL_REGION_NAMES
           \<and> drop 10 (cfg_proxy_groups cfg)
               = map (\<lambda>r. select_group r
                            (if members groups r = [] then [REJECT] else members groups r))
                   ALL_REGION_NAMES
           \<and> map g_name (drop 10 (cfg_proxy_groups cfg)) = ALL_REGION_NAMES
           \<and> (\<forall>r. members groups r
                  = map snd (filter (\<lambda>x. fst x = r) (matched REGION_MAP proxies)))
           \<and> distinct ALL_REGION_NAMES \<and> length ALL_REGION_NAMES = 12"
proof -
  from classify_total [OF assms, of REGION_MAP] obtain groups
    where g: "classify REGION_MAP proxies = Inr groups" by blast
  define cfg where "cfg = \<lparr>cfg_proxies = proxies,
      cfg_proxy_groups =
        fixed_groups (map (\<lambda>p. VStr (trimmed_name p)) proxies)
          @ [region_select_group (map snd REGION_MAP) groups]
          @ region_subgroups (map snd REGION_MAP) groups,
      cfg_rules = rules\<rparr>"
  have b: "build_config rules proxies = Inr cfg"
    by (simp add: build_config_def build_config_with_def all_names_total [OF assms] g cfg_def)
  have sub: "region_subgroups ALL_REGION_NAMES groups
      = map (\<lambda>r. select_group r (if members groups r = [] then [REJECT] else members groups r))
          ALL_REGION_NAMES"
    by (simp add: region_subgroups_map members_or_reject [OF classify_nonempty [OF g]])
  have dr: "drop 10 (cfg_proxy_groups cfg) = region_subgroups ALL_REGION_NAMES groups"
    by (simp add: cfg_def length_fixed_groups ALL_REGION_NAMES_def)
  have len: "length (cfg_proxy_groups cfg) = 10 + length ALL_REGION_NAMES"
    by (simp add: cfg_def length_fixed_groups ALL_REGION_NAMES_def region_subgroups_map)
  have nm: "map g_name (drop 10 (cfg_proxy_groups cfg)) = ALL_REGION_NAMES"
    by (simp add: dr sub select_group_def comp_def)
  have l12: "length ALL_REGION_NAMES = 12" by (simp add: all_region_names)
  from b g dr sub len nm classify_keys(4) [OF g] distinct_all_region_names l12
  show ?thesis by (auto simp: classify_by_region_def)
qed

theorem assembler_region_groups_witness:
  "\<exists>cfg. build_config [] [mk_node ''JP-1''] = Inr cfg
      \<and> length (cfg_proxy_groups cfg) = 22
      \<and> map g_proxies (drop 10 (cfg_proxy_groups cfg))
          = [[VStr (ustr ''JP-1'')], [REJECT], [REJECT], [REJECT], [REJECT], [REJECT], [REJECT],
             [REJECT], [REJECT], [REJECT], [REJECT], [REJECT]]"
proof -
  have h: "\<forall>p\<in>set [mk_node ''JP-1'']. has_str_name p" by (simp add: str_mk_node)
  from assembler_region_groups [OF h, of "[]"] obtain cfg groups
    where b: "build_config [] [mk_node ''JP-1''] = Inr cfg"
      and g: "classify_by_region [mk_node ''JP-1''] = Inr groups"
      and l: "length (cfg_proxy_groups cfg) = 10 + length ALL_REGION_NAMES"
      and d: "drop 10 (cfg_proxy_groups cfg)
               = map (\<lambda>r. select_group r
                            (if members groups r = [] then [REJECT] else members groups r))
                   ALL_REGION_NAMES"
      and n: "length ALL_REGION_NAMES = 12"
    by blast
  from g have gs: "groups = [(L_JAPAN, [VStr (ustr ''JP-1'')])]" by (simp add: classify_jp_1)
  have "map g_proxies (drop 10 (cfg_proxy_groups cfg))
          = [[VStr (ustr ''JP-1'')], [REJECT], [REJECT], [REJECT], [REJECT], [REJECT], [REJECT],
             [REJECT], [REJECT], [REJECT], [REJECT], [REJECT]]"
    by (simp add: d gs all_region_names members_def select_group_def labels)
  with b l n show ?thesis by simp
qed

text \<open>
  C8. When every probe fails (the Prober returns an empty list), or no node is left after
  deduplication or after region filtering, the run ends with a fatal error and no
  configuration is built or written; a configuration is produced only when at least one
  node survives every stage. In the model the run ends with \<^verbatim>\<open>sys.exit(1)\<close> in each of the
  empty cases, and a returned configuration comes from non-empty lists at every stage and
  holds the surviving nodes.
\<close>

theorem empty_pipeline_is_fatal:
  "(main_pipeline py net order rules all_proxies = Inr cfg \<longrightarrow>
      (\<exists>filtered alive. deduplicate_proxies py all_proxies \<noteq> []
          \<and> filter_blocked_regions (deduplicate_proxies py all_proxies) = Inr filtered
          \<and> filtered \<noteq> []
          \<and> test_proxies_latency py net order filtered = Inr alive \<and> alive \<noteq> []
          \<and> build_config rules alive = Inr cfg \<and> cfg_proxies cfg = alive))
   \<and> (deduplicate_proxies py all_proxies = [] \<longrightarrow>
         main_pipeline py net order rules all_proxies = Inl (SystemExit 1))
   \<and> (filter_blocked_regions (deduplicate_proxies py all_proxies) = Inr [] \<longrightarrow>
         main_pipeline py net order rules all_proxies = Inl (SystemExit 1))
   \<and> (\<forall>filtered. filter_blocked_regions (deduplicate_proxies py all_proxies) = Inr filtered
          \<and> test_proxies_latency py net order filtered = Inr [] \<longrightarrow>
         main_pipeline py net order rules all_proxies = Inl (SystemExit 1))
   \<and> (\<forall>filtered. filter_blocked_regions (deduplicate_proxies py all_proxies) = Inr filtered
          \<and> set order \<subseteq> {..<length filtered}
          \<and> (\<forall>i<length filtered.
                \<exists>p. test_single_proxy py (net i) (filtered ! i) = Inr (p, None)) \<longrightarrow>
         main_pipeline py net order rules all_proxies = Inl (SystemExit 1))"
proof (intro conjI impI allI)
  assume m: "main_pipeline py net order rules all_proxies = Inr cfg"
  then obtain filtered where f: "filter_blocked_regions (deduplicate_proxies py all_proxies) = Inr filtered"
    and fn: "filtered \<noteq> []"
    by (auto simp: main_pipeline_def split: if_splits sum.splits)
  from m f fn obtain alive where a: "test_proxies_latency py net order filtered = Inr alive"
    and an: "alive \<noteq> []" and b: "build_config rules alive = Inr cfg"
    by (auto simp: main_pipeline_def split: if_splits sum.splits)
  have dn: "deduplicate_proxies py all_proxies \<noteq> []"
  proof
    assume "deduplicate_proxies py all_proxies = []"
    with f fn show False by (simp add: filter_blocked_regions_def)
  qed
  from dn f fn a an b build_config_proxies [OF b]
  show "\<exists>filtered alive. deduplicate_proxies py all_proxies \<noteq> []
          \<and> filter_blocked_regions (deduplicate_proxies py all_proxies) = Inr filtered
          \<and> filtered \<noteq> []
          \<and> test_proxies_latency py net order filtered = Inr alive \<and> alive \<noteq> []
          \<and> build_config rules alive = Inr cfg \<and> cfg_proxies cfg = alive"
    by blast
next
  assume "deduplicate_proxies py all_proxies = []"
  then show "main_pipeline py net order rules all_proxies = Inl (SystemExit 1)"
    by (simp add: main_pipeline_def filter_blocked_regions_def)
next
  assume "filter_blocked_regions (deduplicate_proxies py all_proxies) = Inr []"
  then show "main_pipeline py net order rules all_proxies = Inl (SystemExit 1)"
    by (simp add: main_pipeline_def)
next
  fix filtered
  assume "filter_blocked_regions (deduplicate_proxies py all_proxies) = Inr filtered
          \<and> test_proxies_latency py net order filtered = Inr []"
  then show "main_pipeline py net order rules all_proxies = Inl (SystemExit 1)"
    by (simp add: main_pipeline_def)
next
  fix filtered
  assume h: "filter_blocked_regions (deduplicate_proxies py all_proxies) = Inr filtered
          \<and> set order \<subseteq> {..<length filtered}
          \<and> (\<forall>i<length filtered.
                \<exists>p. test_single_proxy py (net i) (filtered ! i) = Inr (p, None))"
  then have "test_proxies_latency py net order filtered = Inr []"
    by (intro probes_all_fail) simp_all
  with h show "main_pipeline py net order rules all_proxies = Inl (SystemExit 1)"
    by (simp add: main_pipeline_def)
qed

text \<open>
  One node \<^verbatim>\<open>JP-1\<close>: with no connection established the run exits; with a connection
  after 10 ms the configuration holds the node, renamed.
\<close>

theorem empty_pipeline_is_fatal_witness:
  "main_pipeline py0 net_down [0] [] [VDict (mk_node ''JP-1'')] = Inl (SystemExit 1)
   \<and> (\<exists>cfg. main_pipeline py0 (net_const 10) [0] [] [VDict (mk_node ''JP-1'')] = Inr cfg
          \<and> cfg_proxies cfg = [renamed ''[10ms] JP-1'' ''JP-1''])"
proof
  have "filter_blocked_regions (deduplicate_proxies py0 [VDict (mk_node ''JP-1'')])
          = Inr [mk_node ''JP-1'']
        \<and> set [0] \<subseteq> {..<length [mk_node ''JP-1'']}
        \<and> (\<forall>i<length [mk_node ''JP-1''].
              \<exists>p. test_single_proxy py0 (net_down i) ([mk_node ''JP-1''] ! i) = Inr (p, None))"
    by (simp add: dedup_jp_1 filter_jp_1 probe_down)
  with empty_pipeline_is_fatal [of py0 net_down "[0]" "[]" "[VDict (mk_node ''JP-1'')]"]
  show "main_pipeline py0 net_down [0] [] [VDict (mk_node ''JP-1'')] = Inl (SystemExit 1)"
    by blast
next
  obtain cfg where b: "build_config [] [renamed ''[10ms] JP-1'' ''JP-1''] = Inr cfg"
    using build_config_total [of "[renamed ''[10ms] JP-1'' ''JP-1'']" "[]"]
    by (auto simp: str_renamed)
  have m: "main_pipeline py0 (net_const 10) [0] [] [VDict (mk_node ''JP-1'')] = Inr cfg"
    by (simp add: main_pipeline_def dedup_jp_1 filter_jp_1 probe_jp_1 b)
  from empty_pipeline_is_fatal [of py0 "net_const 10" "[0]" "[]" "[VDict (mk_node ''JP-1'')]" cfg] m
  obtain filtered alive
    where "filter_blocked_regions (deduplicate_proxies py0 [VDict (mk_node ''JP-1'')]) = Inr filtered"
      and "test_proxies_latency py0 (net_const 10) [0] filtered = Inr alive"
      and "cfg_proxies cfg = alive"
    by blast
  then have "cfg_proxies cfg = [renamed ''[10ms] JP-1'' ''JP-1'']"
    by (auto simp: dedup_jp_1 filter_jp_1 probe_jp_1)
  with m show "\<exists>cfg. main_pipeline py0 (net_const 10) [0] [] [VDict (mk_node ''JP-1'')] = Inr cfg
          \<and> cfg_proxies cfg = [renamed ''[10ms] JP-1'' ''JP-1'']"
    by blast
qed

text \<open>
  C9. For an input that is already deduplicated (all names unique and non-empty, the
  required fields present) and already filtered (no name matches the blocked pattern),
  applying Normalizer, Region Filter and Classifier a second time gives the same grouping
  as applying them once. The code breaks this for the entries named \<^verbatim>\<open>' JP'\<close>, \<^verbatim>\<open>'JP'\<close>,
  \<^verbatim>\<open>'JP_1'\<close>, which meet every condition: the Normalizer trims the first name to \<^verbatim>\<open>JP\<close>,
  renames the second entry \<^verbatim>\<open>JP_1\<close> and lets the third keep \<^verbatim>\<open>JP_1\<close>, so the first pass
  returns two nodes of one name and groups Japan as \<^verbatim>\<open>JP\<close>, \<^verbatim>\<open>JP_1\<close>, \<^verbatim>\<open>JP_1\<close>; the second
  pass renames the third node \<^verbatim>\<open>JP_1_1\<close> and groups Japan as \<^verbatim>\<open>JP\<close>, \<^verbatim>\<open>JP_1\<close>, \<^verbatim>\<open>JP_1_1\<close>.
  This is the collision of C1. (Where the names are pairwise different after trimming,
  the second pass changes nothing: lemma \<open>grouping_idempotent\<close>.)
\<close>

theorem idempotence_broken_by_suffix_collision:
  "required_fields_present jp_entries \<and> names_unique_nonempty jp_entries
   \<and> no_name_blocked jp_entries
   \<and> normalize_filter py0 jp_entries = Inr jp_first_pass
   \<and> grouping py0 jp_entries
       = Inr [(L_JAPAN, [VStr (ustr ''JP''), VStr (ustr ''JP_1''), VStr (ustr ''JP_1'')])]
   \<and> grouping py0 (map VDict jp_first_pass)
       = Inr [(L_JAPAN, [VStr (ustr ''JP''), VStr (ustr ''JP_1''), VStr (ustr ''JP_1_1'')])]
   \<and> grouping py0 (map VDict jp_first_pass) \<noteq> grouping py0 jp_entries"
proof -
  have n1: "normalize_filter py0 jp_entries = Inr jp_first_pass"
    by (simp add: normalize_filter_def dedup_jp_entries filter_jp_first_pass)
  have g1: "grouping py0 jp_entries
       = Inr [(L_JAPAN, [VStr (ustr ''JP''), VStr (ustr ''JP_1''), VStr (ustr ''JP_1'')])]"
    by (simp add: grouping_def n1 classify_jp_first_pass)
  have g2: "grouping py0 (map VDict jp_first_pass)
       = Inr [(L_JAPAN, [VStr (ustr ''JP''), VStr (ustr ''JP_1''), VStr (ustr ''JP_1_1'')])]"
    by (simp add: grouping_def normalize_filter_def dedup_jp_first_pass filter_jp_second_pass
        classify_jp_second_pass)
  have "grouping py0 (map VDict jp_first_pass) \<noteq> grouping py0 jp_entries"
    unfolding g1 g2 by (simp add: ustr_def)
  with jp_entries_literal n1 g1 g2 show ?thesis by (intro conjI) assumption+
qed

text \<open>
  C10. A node whose port is absent, the number 0 or not convertible to an integer, or
  whose server is absent or empty, is classified as unreachable without a connection
  attempt. The code breaks this for the port \<^verbatim>\<open>inf\<close>: \<^verbatim>\<open>int(port)\<close> raises \<^verbatim>\<open>OverflowError\<close>,
  which the probe does not catch (it catches \<^verbatim>\<open>ValueError\<close> and \<^verbatim>\<open>TypeError\<close>), so the
  exception leaves \<^verbatim>\<open>test_single_proxy\<close>, whatever the network would answer.
\<close>

theorem probe_infinite_port_raises:
  "test_single_proxy py connect inf_port_node = Inl OverflowError"
  by (simp add: test_single_proxy_def inf_port_node_def dict_get_def keys)

theorem probe_infinite_port_raises_witness:
  "test_single_proxy py0 (net_const 10 0) inf_port_node = Inl OverflowError"
  by (rule probe_infinite_port_raises)

end
